theory Spec2Isabelle
  imports Main "HOL-Library.Word" "HOL-Library.Monad_Syntax"
begin

unbundle bit_operations_syntax

section \<open>Failures as values\<close>

text \<open>
  The library never throws on its own, but three things can stop a call from returning
  a value: \<^verbatim>\<open>panic\<close> (prints to \<^verbatim>\<open>std::cerr\<close> and calls \<^verbatim>\<open>std::terminate\<close>), a
  \<^verbatim>\<open>std::vector\<close> subscript outside the storage (undefined behaviour), and a vector
  constructor asked for more elements than the vector's \<^verbatim>\<open>max_size()\<close>, which throws
  \<^verbatim>\<open>std::length_error\<close>. Each is a constructor of \<open>error\<close>; a call that can fail
  returns \<open>error + 'a\<close>.
\<close>

datatype error =
    Panic string
  | OutOfRange int
  | LengthError

type_synonym i64 = "64 word"

text \<open>
  \<^verbatim>\<open>[[noreturn]] inline void panic(const str& msg)\<close>: the payload of \<open>Panic\<close> is the
  line written to \<^verbatim>\<open>std::cerr\<close> before the process terminates.
\<close>

definition panic :: "string \<Rightarrow> error + 'a" where
  "panic msg = Inl (Panic (''[DAXE PANIC]: '' @ msg))"

section \<open>safe.h: Option and Result\<close>

text \<open>
  \<^verbatim>\<open>Option<T>\<close> derives from \<^verbatim>\<open>std::optional<T>\<close>: it is \<open>'a option\<close>.
  \<^verbatim>\<open>Result<T, E>\<close> wraps a \<^verbatim>\<open>std::variant<T, E>\<close> whose index 0 is the value and
  index 1 the error.

  The combinators take a C++ callable, which may have effects (the tests capture a flag
  by reference). A callable is therefore a function that also transforms a world \<open>'w\<close>;
  each call \<^verbatim>\<open>f(...)\<close> in the source is one application in the model, and a combinator
  that does not call \<open>f\<close> returns the world it was given.
\<close>

datatype ('t, 'e) Result = Ok 't | Err 'e

type_synonym ('a, 'b, 'w) callable = "'a \<Rightarrow> 'w \<Rightarrow> 'b \<times> 'w"

subsection \<open>Option\<close>

definition issome :: "'a option \<Rightarrow> bool" where
  "issome self = (case self of Some _ \<Rightarrow> True | None \<Rightarrow> False)"

definition isnone :: "'a option \<Rightarrow> bool" where
  "isnone self = (\<not> (case self of Some _ \<Rightarrow> True | None \<Rightarrow> False))"

definition Option_unwrap :: "'a option \<Rightarrow> error + 'a" where
  "Option_unwrap self =
     (case self of
        None \<Rightarrow> panic ''called unwrap() on None Option''
      | Some v \<Rightarrow> Inr v)"

definition Option_unwrap_msg :: "'a option \<Rightarrow> string \<Rightarrow> error + 'a" where
  "Option_unwrap_msg self msg =
     (case self of
        None \<Rightarrow> panic msg
      | Some v \<Rightarrow> Inr v)"

definition Option_map :: "'a option \<Rightarrow> ('a, 'b, 'w) callable \<Rightarrow> 'w \<Rightarrow> 'b option \<times> 'w" where
  "Option_map self f w =
     (case self of
        Some v \<Rightarrow> (case f v w of (u, w') \<Rightarrow> (Some u, w'))
      | None \<Rightarrow> (None, w))"

definition Option_then :: "'a option \<Rightarrow> ('a, 'b option, 'w) callable \<Rightarrow> 'w \<Rightarrow> 'b option \<times> 'w" where
  "Option_then self f w =
     (case self of
        Some v \<Rightarrow> f v w
      | None \<Rightarrow> (None, w))"

definition Option_otherwise :: "'a option \<Rightarrow> (unit, 'a, 'w) callable \<Rightarrow> 'w \<Rightarrow> 'a \<times> 'w" where
  "Option_otherwise self f w =
     (case self of
        Some v \<Rightarrow> (v, w)
      | None \<Rightarrow> f () w)"

definition valueor :: "'a option \<Rightarrow> 'a \<Rightarrow> 'a" where
  "valueor self def = (case self of Some v \<Rightarrow> v | None \<Rightarrow> def)"

subsection \<open>Result\<close>

definition isok :: "('t, 'e) Result \<Rightarrow> bool" where
  "isok self = (case self of Ok _ \<Rightarrow> True | Err _ \<Rightarrow> False)"

definition iserr :: "('t, 'e) Result \<Rightarrow> bool" where
  "iserr self = (case self of Ok _ \<Rightarrow> False | Err _ \<Rightarrow> True)"

definition Result_unwrap :: "('t, 'e) Result \<Rightarrow> error + 't" where
  "Result_unwrap self =
     (case self of
        Err _ \<Rightarrow> panic ''called unwrap() on Err Result''
      | Ok v \<Rightarrow> Inr v)"

definition Result_unwrap_msg :: "('t, 'e) Result \<Rightarrow> string \<Rightarrow> error + 't" where
  "Result_unwrap_msg self msg =
     (case self of
        Err _ \<Rightarrow> panic msg
      | Ok v \<Rightarrow> Inr v)"

definition Result_error :: "('t, 'e) Result \<Rightarrow> error + 'e" where
  "Result_error self =
     (case self of
        Ok _ \<Rightarrow> panic ''called error() on Ok Result''
      | Err e \<Rightarrow> Inr e)"

definition Result_map :: "('t, 'e) Result \<Rightarrow> ('t, 'u, 'w) callable \<Rightarrow> 'w \<Rightarrow> ('u, 'e) Result \<times> 'w" where
  "Result_map self f w =
     (case self of
        Ok v \<Rightarrow> (case f v w of (u, w') \<Rightarrow> (Ok u, w'))
      | Err e \<Rightarrow> (Err e, w))"

definition Result_then ::
  "('t, 'e) Result \<Rightarrow> ('t, ('u, 'e) Result, 'w) callable \<Rightarrow> 'w \<Rightarrow> ('u, 'e) Result \<times> 'w" where
  "Result_then self f w =
     (case self of
        Ok v \<Rightarrow> f v w
      | Err e \<Rightarrow> (Err e, w))"

definition Result_otherwise :: "('t, 'e) Result \<Rightarrow> ('e, 't, 'w) callable \<Rightarrow> 'w \<Rightarrow> 't \<times> 'w" where
  "Result_otherwise self f w =
     (case self of
        Ok v \<Rightarrow> (v, w)
      | Err e \<Rightarrow> f e w)"

subsection \<open>Counting invocations\<close>

text \<open>
  \<open>counted f\<close> is the callable \<open>f\<close> instrumented with a call counter kept in the world:
  every application adds one. It turns "is invoked exactly once" and "is never invoked"
  into statements about a number.
\<close>

definition counted :: "('a, 'b, 'w) callable \<Rightarrow> ('a, 'b, nat \<times> 'w) callable" where
  "counted f x kw = (case kw of (k, w) \<Rightarrow> (case f x w of (y, w') \<Rightarrow> (y, (Suc k, w'))))"

section \<open>graph.h: FenwickTree\<close>

subsection \<open>The lowest set bit\<close>

text \<open>
  Both loops of the tree step by \<^verbatim>\<open>i & (-i)\<close>. Indices are \<^verbatim>\<open>i64\<close> in the source; they
  are modelled as \<open>int\<close>, where \<open>AND\<close> and unary minus are the two's-complement operations
  on unbounded integers. That the \<^verbatim>\<open>i64\<close> arithmetic of the source computes the same
  numbers is proved below from the bound the constructor puts on the size of a tree
  (\<open>up_i64_agrees\<close>, \<open>down_i64_agrees\<close>). The stored sums and deltas are \<open>i64\<close> words: an
  addition that leaves the signed range is undefined in C++ and wraps here, as it does
  on the machine.

  \<open>lowbit\<close> names the step for the proofs; the model writes the expression out as the
  source does.
\<close>

definition lowbit :: "int \<Rightarrow> int" where "lowbit i = i AND (- i)"

lemma lowbit_and: "i AND (- i) = lowbit i" by (simp add: lowbit_def)

lemma lowbit_even: "lowbit (2 * i) = 2 * lowbit i"
proof -
  have e: "(- (2 * i)) div 2 = - i" "(2 * i) div 2 = i" by presburger+
  have "(2 * i) AND (- (2 * i)) = 2 * (i AND (- i))"
    by (subst and_int_rec) (simp only: e, simp)
  then show ?thesis by (simp add: lowbit_def)
qed

lemma lowbit_odd: "lowbit (2 * i + 1) = 1"
proof -
  have "(- (2 * i + 1)) div 2 = - i - 1" by presburger
  then have d: "(- (2 * i + 1)) div 2 = NOT i" "(2 * i + 1) div 2 = i"
    by (simp_all add: not_int_def)
  have "(2 * i + 1) AND (- (2 * i + 1)) = 1 + 2 * (i AND NOT i)"
    by (subst and_int_rec) (simp only: d, simp)
  then show ?thesis by (simp add: lowbit_def)
qed

lemma int_parity_cases:
  obtains (even) j :: int where "i = 2 * j" | (odd) j :: int where "i = 2 * j + 1"
  by (cases "even i") (auto elim: evenE oddE)

lemma lowbit_bounds: "0 < i \<Longrightarrow> 0 < lowbit i \<and> lowbit i \<le> i"
proof (induction "nat i" arbitrary: i rule: less_induct)
  case less
  show ?case
  proof (cases i rule: int_parity_cases)
    case (even j)
    with less.prems have "0 < j" "nat j < nat i" by auto
    with less.hyps have "0 < lowbit j \<and> lowbit j \<le> j" by blast
    with even show ?thesis by (simp add: lowbit_even)
  next
    case (odd j)
    with less.prems show ?thesis by (simp add: lowbit_odd)
  qed
qed

lemma lowbit_between: "0 < i \<Longrightarrow> i < j \<Longrightarrow> j < i + lowbit i \<Longrightarrow> i \<le> j - lowbit j"
proof (induction "nat i" arbitrary: i j rule: less_induct)
  case less
  show ?case
  proof (cases i rule: int_parity_cases)
    case (odd k)
    with less.prems show ?thesis by (simp add: lowbit_odd)
  next
    case i: (even k)
    show ?thesis
    proof (cases j rule: int_parity_cases)
      case (odd m)
      with less.prems i show ?thesis by (simp add: lowbit_odd)
    next
      case j: (even m)
      from less.prems i j have "0 < k" "nat k < nat i" "k < m" "m < k + lowbit k"
        by (auto simp: lowbit_even)
      with less.hyps have "k \<le> m - lowbit m" by blast
      with i j show ?thesis by (simp add: lowbit_even)
    qed
  qed
qed

lemma lowbit_next: "0 < i \<Longrightarrow> 2 * lowbit i \<le> lowbit (i + lowbit i)"
proof (induction "nat i" arbitrary: i rule: less_induct)
  case less
  show ?case
  proof (cases i rule: int_parity_cases)
    case (odd k)
    with less.prems have "0 < k + 1" by simp
    then have "0 < lowbit (k + 1)" using lowbit_bounds by blast
    then have "2 \<le> lowbit (2 * (k + 1))" by (simp only: lowbit_even)
    moreover have "i + lowbit i = 2 * (k + 1)" "lowbit i = 1"
      using odd by (simp_all add: lowbit_odd)
    ultimately show ?thesis by (simp only: mult_1_right)
  next
    case (even k)
    with less.prems have "0 < k" "nat k < nat i" by auto
    with less.hyps have "2 * lowbit k \<le> lowbit (k + lowbit k)" by blast
    then have "2 * (2 * lowbit k) \<le> lowbit (2 * (k + lowbit k))"
      by (simp only: lowbit_even)
    moreover have "i + lowbit i = 2 * (k + lowbit k)" "lowbit i = 2 * lowbit k"
      using even by (simp_all add: lowbit_even)
    ultimately show ?thesis by simp
  qed
qed

subsection \<open>The class\<close>

text \<open>
  \<^verbatim>\<open>std::vector<i64> tree; i64 n;\<close> The field \<^verbatim>\<open>n\<close> is \<open>ft_n\<close> here, so that \<open>n\<close> stays
  free for variables.
\<close>

record FenwickTree =
  tree :: "i64 list"
  ft_n :: int

text \<open>
  \<^verbatim>\<open>explicit FenwickTree(i64 size) : tree(static_cast<size_t>(size + 1), 0), n(size) {}\<close>
  The argument is an \<^verbatim>\<open>i64\<close>. \<^verbatim>\<open>size + 1\<close> is computed in \<^verbatim>\<open>i64\<close> (at the largest
  \<^verbatim>\<open>i64\<close> it wraps to the smallest) and converted to \<^verbatim>\<open>size_t\<close>: the number of cells
  asked for is \<open>unat (sz + 1)\<close>. The vector's constructor throws \<^verbatim>\<open>std::length_error\<close>
  when that number exceeds its \<^verbatim>\<open>max_size()\<close>. \<^verbatim>\<open>max_size()\<close> is a constant of the
  standard library in use and a parameter here; with 8-byte elements and 64-bit sizes it
  is below \<open>2^61\<close>, and it is \<open>2^60 - 1\<close> in libstdc++ (\<open>example_max_size\<close>).
\<close>

definition FenwickTree_new :: "nat \<Rightarrow> i64 \<Rightarrow> error + FenwickTree" where
  "FenwickTree_new max_size sz =
     (if max_size < unat (sz + 1) then Inl LengthError
      else Inr \<lparr>tree = replicate (unat (sz + 1)) 0, ft_n = sint sz\<rparr>)"

definition example_max_size :: nat where
  "example_max_size = 1152921504606846975"

text \<open>
  The two index steps of the loops as the source computes them, in \<^verbatim>\<open>i64\<close>:
  \<^verbatim>\<open>i += i & (-i)\<close> and \<^verbatim>\<open>i -= i & (-i)\<close>.
\<close>

definition up_i64 :: "i64 \<Rightarrow> i64" where
  "up_i64 i = i + (i AND (- i))"

definition down_i64 :: "i64 \<Rightarrow> i64" where
  "down_i64 i = i - (i AND (- i))"

text \<open>
  \<^verbatim>\<open>for (++i; i <= n; i += i & (-i)) tree[i] += delta;\<close>
  The loop is entered at the incremented index. A subscript outside the vector is the
  error \<open>OutOfRange\<close>. From index \<open>0\<close> the step is \<open>0\<close> and the loop never ends, so the
  loop is a partial function: \<open>None\<close> is "does not return". The last argument is a
  ghost: the list of subscripts applied to \<^verbatim>\<open>tree\<close> so far, in order.
\<close>

partial_function (option) update_loop ::
  "int \<Rightarrow> i64 \<Rightarrow> int \<Rightarrow> i64 list \<Rightarrow> int list \<Rightarrow> (error + i64 list \<times> int list) option" where
  "update_loop n delta i t tr =
     (if i \<le> n then
        (if 0 \<le> i \<and> i < int (length t)
         then update_loop n delta (i + (i AND (- i))) (t[nat i := t ! nat i + delta]) (tr @ [i])
         else Some (Inl (OutOfRange i)))
      else Some (Inr (t, tr)))"

declare update_loop.simps [code]

text \<open>\<^verbatim>\<open>void update(i64 i, i64 delta)\<close>\<close>

definition update :: "FenwickTree \<Rightarrow> int \<Rightarrow> i64 \<Rightarrow> (error + FenwickTree) option" where
  "update ft i delta =
     (if i < 0 \<or> i \<ge> ft_n ft then Some (Inr ft)
      else (case update_loop (ft_n ft) delta (i + 1) (tree ft) [] of
              None \<Rightarrow> None
            | Some (Inl e) \<Rightarrow> Some (Inl e)
            | Some (Inr (t, tr)) \<Rightarrow> Some (Inr (ft\<lparr>tree := t\<rparr>))))"

text \<open>
  \<^verbatim>\<open>for (++i; i > 0; i -= i & (-i)) sum += tree[i];\<close>
  This loop ends from every index: a positive index strictly decreases and stays
  non-negative.
\<close>

function query_loop :: "i64 list \<Rightarrow> int \<Rightarrow> i64 \<Rightarrow> int list \<Rightarrow> error + i64 \<times> int list" where
  "query_loop t i acc tr =
     (if i > 0 then
        (if i < int (length t)
         then query_loop t (i - (i AND (- i))) (acc + t ! nat i) (tr @ [i])
         else Inl (OutOfRange i))
      else Inr (acc, tr))"
  by pat_completeness auto

termination
proof (relation "measure (\<lambda>(t, i, acc, tr). nat i)")
  fix t :: "i64 list" and i :: int and acc :: i64 and tr :: "int list"
  assume "0 < i"
  with lowbit_bounds [of i]
  show "((t, i - (i AND - i), acc + t ! nat i, tr @ [i]), (t, i, acc, tr))
          \<in> measure (\<lambda>(t, i, acc, tr). nat i)"
    by (simp add: lowbit_and)
qed simp

declare query_loop.simps [simp del]

text \<open>\<^verbatim>\<open>i64 query(i64 i) const\<close>\<close>

definition query :: "FenwickTree \<Rightarrow> int \<Rightarrow> error + i64" where
  "query ft i =
     (if i < 0 then Inr 0
      else (case query_loop (tree ft) ((if i \<ge> ft_n ft then ft_n ft - 1 else i) + 1) 0 [] of
              Inl e \<Rightarrow> Inl e
            | Inr (acc, tr) \<Rightarrow> Inr acc))"

text \<open>\<^verbatim>\<open>i64 rangequery(i64 l, i64 r) const\<close>\<close>

definition rangequery :: "FenwickTree \<Rightarrow> int \<Rightarrow> int \<Rightarrow> error + i64" where
  "rangequery ft l r =
     (if l > r \<or> r < 0 \<or> l \<ge> ft_n ft then Inr 0
      else (case query ft r of
              Inl e \<Rightarrow> Inl e
            | Inr qr \<Rightarrow>
                (case (if l > 0 then query ft (l - 1) else Inr 0) of
                   Inl e \<Rightarrow> Inl e
                 | Inr ql \<Rightarrow> Inr (qr - ql))))"

subsection \<open>Call sequences and reference values\<close>

text \<open>
  \<open>updates\<close> applies a list of \<^verbatim>\<open>update(i, delta)\<close> calls in order and stops at the first
  call that fails; \<open>run\<close> does the same for a mixed sequence of calls and collects the
  values the queries return. \<open>brute us l r\<close> is the brute-force sum of the deltas that
  the calls \<open>us\<close> applied at positions in \<open>[l, r]\<close>, and \<open>applied us q\<close> the logical value
  at position \<open>q\<close>.
\<close>

fun updates :: "FenwickTree \<Rightarrow> (int \<times> i64) list \<Rightarrow> (error + FenwickTree) option" where
  "updates ft [] = Some (Inr ft)"
| "updates ft ((i, delta) # us) =
     (case update ft i delta of
        Some (Inr ft') \<Rightarrow> updates ft' us
      | other \<Rightarrow> other)"

datatype call = Update int i64 | Query int | RangeQuery int int

fun run :: "FenwickTree \<Rightarrow> i64 list \<Rightarrow> call list \<Rightarrow> (error + FenwickTree \<times> i64 list) option" where
  "run ft out [] = Some (Inr (ft, out))"
| "run ft out (Update i delta # cs) =
     (case update ft i delta of
        None \<Rightarrow> None
      | Some (Inl e) \<Rightarrow> Some (Inl e)
      | Some (Inr ft') \<Rightarrow> run ft' out cs)"
| "run ft out (Query i # cs) =
     (case query ft i of
        Inl e \<Rightarrow> Some (Inl e)
      | Inr v \<Rightarrow> run ft (out @ [v]) cs)"
| "run ft out (RangeQuery l r # cs) =
     (case rangequery ft l r of
        Inl e \<Rightarrow> Some (Inl e)
      | Inr v \<Rightarrow> run ft (out @ [v]) cs)"

definition brute :: "(int \<times> i64) list \<Rightarrow> int \<Rightarrow> int \<Rightarrow> i64" where
  "brute us l r = sum_list (map snd (filter (\<lambda>(i, d). l \<le> i \<and> i \<le> r) us))"

definition applied :: "(int \<times> i64) list \<Rightarrow> int \<Rightarrow> i64" where
  "applied us q = sum_list (map snd (filter (\<lambda>(i, d). i = q) us))"

text \<open>
  The data-model invariants: the vector has \<open>n + 1\<close> cells, and cell \<open>j\<close> of a tree
  that represents the logical array \<open>a\<close> holds the sum of \<open>a\<close> over the \<open>lowbit j\<close>
  positions below \<open>j\<close> (the external, 0-based positions \<open>j - lowbit j, \<dots>, j - 1\<close>).
\<close>

definition wellformed :: "FenwickTree \<Rightarrow> bool" where
  "wellformed ft \<longleftrightarrow> int (length (tree ft)) = ft_n ft + 1"

definition represents :: "(int \<Rightarrow> i64) \<Rightarrow> FenwickTree \<Rightarrow> bool" where
  "represents a ft \<longleftrightarrow>
     length (tree ft) = nat (ft_n ft + 1) \<and>
     (\<forall>j. 1 \<le> j \<and> j \<le> ft_n ft \<longrightarrow> tree ft ! nat j = sum a {j - lowbit j ..< j})"

definition example_tree :: FenwickTree where
  "example_tree = \<lparr>tree = [0, 0, 0, 0, 5, 0, 10, 0, 18, 0, 0], ft_n = 10\<rparr>"

section \<open>graph.h: DSU\<close>

text \<open>
  \<^verbatim>\<open>std::vector<i64> parent, rank_;\<close> The field \<^verbatim>\<open>rank_\<close> is \<open>rank\<close> here (a name cannot
  end in an underscore). Elements, parents and ranks are \<open>int\<close>: every value stored is an
  index below the vector's size, a rank of at most that size, or the sentinel \<open>-1\<close>.
\<close>

record DSU =
  parent :: "int list"
  rank :: "int list"

text \<open>
  \<^verbatim>\<open>explicit DSU(i64 n)\<close>: both vectors get \<^verbatim>\<open>static_cast<size_t>(n)\<close> elements, that is
  \<open>unat n\<close>, and \<^verbatim>\<open>std::iota\<close> fills \<^verbatim>\<open>parent\<close> with \<open>0, 1, \<dots>\<close>. As for the tree, the
  vector's constructor throws \<^verbatim>\<open>std::length_error\<close> above its \<^verbatim>\<open>max_size()\<close>, which is
  what a negative \<open>n\<close> asks for.
\<close>

definition DSU_new :: "nat \<Rightarrow> i64 \<Rightarrow> error + DSU" where
  "DSU_new max_size n =
     (if max_size < unat n then Inl LengthError
      else Inr \<lparr>parent = map int [0 ..< unat n], rank = replicate (unat n) 0\<rparr>)"

text \<open>
  \<^verbatim>\<open>i64 find(i64 x)\<close>: recursive, with the assignment \<^verbatim>\<open>parent[x] = find(parent[x])\<close> on
  the way back. The recursion follows parent links and does not end on a cycle, so
  \<open>find\<close> is a partial function and \<open>None\<close> is "does not return". Both subscripts of
  \<^verbatim>\<open>parent\<close> stand behind the bounds check.
\<close>

partial_function (option) find :: "DSU \<Rightarrow> int \<Rightarrow> (DSU \<times> int) option" where
  "find s x =
     (if x < 0 \<or> x \<ge> int (length (parent s)) then Some (s, - 1)
      else if parent s ! nat x \<noteq> x then
        do {
          (s', r) \<leftarrow> find s (parent s ! nat x);
          Some (s'\<lparr>parent := (parent s')[nat x := r]\<rparr>, (parent s')[nat x := r] ! nat x)
        }
      else Some (s, parent s ! nat x))"

declare find.simps [code]

text \<open>
  \<^verbatim>\<open>bool unite(i64 x, i64 y)\<close>: the two \<^verbatim>\<open>find\<close> calls run in order, each on the state the
  previous one left. The subscripts of \<^verbatim>\<open>rank_\<close> and \<^verbatim>\<open>parent\<close> after them are not
  checked by the source; the model checks them and returns \<open>OutOfRange\<close>.
\<close>

definition unite :: "DSU \<Rightarrow> int \<Rightarrow> int \<Rightarrow> (error + DSU \<times> bool) option" where
  "unite s x y =
     (case find s x of
        None \<Rightarrow> None
      | Some (s1, px) \<Rightarrow>
     (case find s1 y of
        None \<Rightarrow> None
      | Some (s2, py) \<Rightarrow>
          if px < 0 \<or> py < 0 \<or> px = py then Some (Inr (s2, False))
          else if int (length (rank s2)) \<le> px then Some (Inl (OutOfRange px))
          else if int (length (rank s2)) \<le> py then Some (Inl (OutOfRange py))
          else
            (case (if rank s2 ! nat px < rank s2 ! nat py then (py, px) else (px, py)) of
               (px, py) \<Rightarrow>
                 if int (length (parent s2)) \<le> py then Some (Inl (OutOfRange py))
                 else
                   (let s3 = s2\<lparr>parent := (parent s2)[nat py := px]\<rparr> in
                    if rank s3 ! nat px = rank s3 ! nat py
                    then Some (Inr (s3\<lparr>rank := (rank s3)[nat px := rank s3 ! nat px + 1]\<rparr>, True))
                    else Some (Inr (s3, True))))))"

text \<open>\<^verbatim>\<open>bool connected(i64 x, i64 y)\<close>\<close>

definition connected :: "DSU \<Rightarrow> int \<Rightarrow> int \<Rightarrow> (DSU \<times> bool) option" where
  "connected s x y =
     (case find s x of
        None \<Rightarrow> None
      | Some (s1, px) \<Rightarrow>
     (case find s1 y of
        None \<Rightarrow> None
      | Some (s2, py) \<Rightarrow> Some (s2, px \<ge> 0 \<and> py \<ge> 0 \<and> px = py)))"

text \<open>
  \<^verbatim>\<open>i64 components()\<close>: the loop over \<^verbatim>\<open>size_t i\<close>, re-reading \<^verbatim>\<open>parent.size()\<close> and
  calling \<^verbatim>\<open>find\<close> on the current state at every step.
\<close>

partial_function (option) components_loop :: "DSU \<Rightarrow> nat \<Rightarrow> int \<Rightarrow> (DSU \<times> int) option" where
  "components_loop s i count =
     (if i < length (parent s) then
        do {
          (s', r) \<leftarrow> find s (int i);
          components_loop s' (i + 1) (if r = int i then count + 1 else count)
        }
      else Some (s, count))"

declare components_loop.simps [code]

definition components :: "DSU \<Rightarrow> (DSU \<times> int) option" where
  "components s = components_loop s 0 0"

subsection \<open>Roots, paths and the invariant\<close>

text \<open>
  \<open>root_of p x r\<close>: following parent links from \<open>x\<close> inside the array reaches \<open>r\<close>, and
  \<open>r\<close> is its own parent. \<open>on_path p x y\<close>: \<open>y\<close> is one of the nodes \<open>find\<close> visits from
  \<open>x\<close>, that is \<open>x\<close> itself, its parent, and so on up to and including the root.
\<close>

inductive root_of :: "int list \<Rightarrow> int \<Rightarrow> int \<Rightarrow> bool" for p :: "int list" where
  root: "0 \<le> x \<Longrightarrow> x < int (length p) \<Longrightarrow> p ! nat x = x \<Longrightarrow> root_of p x x"
| step: "0 \<le> x \<Longrightarrow> x < int (length p) \<Longrightarrow> p ! nat x \<noteq> x \<Longrightarrow> root_of p (p ! nat x) r
           \<Longrightarrow> root_of p x r"

code_pred root_of .

inductive on_path :: "int list \<Rightarrow> int \<Rightarrow> int \<Rightarrow> bool" for p :: "int list" where
  here: "0 \<le> x \<Longrightarrow> x < int (length p) \<Longrightarrow> on_path p x x"
| up: "0 \<le> x \<Longrightarrow> x < int (length p) \<Longrightarrow> p ! nat x \<noteq> x \<Longrightarrow> on_path p (p ! nat x) y
           \<Longrightarrow> on_path p x y"

code_pred on_path .

text \<open>
  The invariant of the data model: every parent entry is an index of the array and every
  element reaches a root. \<open>dsu_inv\<close> adds that \<^verbatim>\<open>rank_\<close> has the size of \<^verbatim>\<open>parent\<close>.
  Two elements are in the same set when they have the same root; \<open>num_roots\<close> counts the
  elements that are their own parent.
\<close>

definition valid :: "DSU \<Rightarrow> int \<Rightarrow> bool" where
  "valid s x \<longleftrightarrow> 0 \<le> x \<and> x < int (length (parent s))"

definition forest :: "int list \<Rightarrow> bool" where
  "forest p \<longleftrightarrow>
     (\<forall>x. 0 \<le> x \<and> x < int (length p) \<longrightarrow>
        0 \<le> p ! nat x \<and> p ! nat x < int (length p) \<and> (\<exists>r. root_of p x r))"

definition same_set :: "int list \<Rightarrow> int \<Rightarrow> int \<Rightarrow> bool" where
  "same_set p x y \<longleftrightarrow> (\<exists>r. root_of p x r \<and> root_of p y r)"

definition dsu_inv :: "DSU \<Rightarrow> bool" where
  "dsu_inv s \<longleftrightarrow> length (rank s) = length (parent s) \<and> forest (parent s)"

definition num_roots :: "int list \<Rightarrow> nat" where
  "num_roots p = length (filter (\<lambda>j. p ! j = int j) [0 ..< length p])"

text \<open>
  \<open>compressed p p'\<close>: \<open>p'\<close> differs from \<open>p\<close> by path compression only. Every entry is
  either unchanged or now names the root of its element.
\<close>

definition compressed :: "int list \<Rightarrow> int list \<Rightarrow> bool" where
  "compressed p p' \<longleftrightarrow>
     length p' = length p \<and>
     (\<forall>y. 0 \<le> y \<and> y < int (length p) \<longrightarrow> p' ! nat y = p ! nat y \<or> root_of p y (p' ! nat y))"

text \<open>
  Two reachable states: \<open>example_dsu\<close> is \<open>DSU(5)\<close> after \<open>unite(0,1)\<close>, \<open>unite(2,3)\<close>,
  \<open>unite(1,2)\<close>; \<open>chain_dsu\<close> is \<open>DSU(4)\<close> after \<open>unite(0,1)\<close>, \<open>unite(2,3)\<close>,
  \<open>unite(0,2)\<close>, where element 3 is two links away from its root.
\<close>

definition example_dsu :: DSU where
  "example_dsu = \<lparr>parent = [0, 0, 0, 2, 4], rank = [2, 0, 1, 0, 0]\<rparr>"

definition chain_dsu :: DSU where
  "chain_dsu = \<lparr>parent = [0, 0, 0, 2], rank = [2, 0, 1, 0]\<rparr>"

section \<open>Properties of Option and Result\<close>

text \<open>
  C3. On an empty Option, \<open>map\<close> and \<open>then\<close> return an empty Option and do not invoke
  the callable: the world comes back untouched and the counter of an instrumented
  callable stays where it was. On an empty Option, \<open>otherwise\<close> invokes the zero-argument
  callable exactly once and returns its result. On a present Option holding \<open>v\<close>,
  \<open>then\<close> returns what \<open>f v\<close> returns, with no second wrapping.
\<close>

theorem Option_combinators_empty_path:
  "Option_map None f w = (None, w)
   \<and> Option_then None g w = (None, w)
   \<and> Option_map None (counted f) (k, w) = (None, (k, w))
   \<and> Option_then None (counted g) (k, w) = (None, (k, w))
   \<and> Option_otherwise None h w = h () w
   \<and> Option_otherwise None (counted h) (k, w) = (fst (h () w), (Suc k, snd (h () w)))
   \<and> Option_then (Some v) g w = g v w"
  by (simp add: Option_map_def Option_then_def Option_otherwise_def counted_def
      split: prod.split)

text \<open>
  C4, as the code has it. \<open>unwrap\<close> on a present Option returns the contained value; on
  an empty one it panics, and the diagnostic is the source's literal
  \<^verbatim>\<open>called unwrap() on None Option\<close> behind the \<^verbatim>\<open>[DAXE PANIC]: \<close> prefix.
  \<open>Result::unwrap\<close> on \<open>Err\<close> and \<open>Result::error\<close> on \<open>Ok\<close> panic likewise, each with its
  own message; on the other side they return the payload.
\<close>

theorem unwrap_returns_or_panics:
  "Option_unwrap (Some v) = Inr v
   \<and> Option_unwrap None = Inl (Panic ''[DAXE PANIC]: called unwrap() on None Option'')
   \<and> Result_unwrap (Ok v) = Inr v
   \<and> Result_unwrap (Err e) = Inl (Panic ''[DAXE PANIC]: called unwrap() on Err Result'')
   \<and> Result_error (Err e) = Inr e
   \<and> Result_error (Ok v) = Inl (Panic ''[DAXE PANIC]: called error() on Ok Result'')"
  by (simp add: Option_unwrap_def Result_unwrap_def Result_error_def panic_def)

text \<open>
  The diagnostic of \<open>unwrap\<close> on an empty Option is not the text \<^verbatim>\<open>unwrap on empty\<close>,
  with or without the panic prefix.
\<close>

theorem unwrap_diagnostic_counterexample:
  "Option_unwrap (None :: nat option) \<noteq> Inl (Panic ''unwrap on empty'')
   \<and> Option_unwrap (None :: nat option) \<noteq> Inl (Panic ''[DAXE PANIC]: unwrap on empty'')"
  by (simp add: Option_unwrap_def panic_def)

text \<open>
  C7. \<open>Ok v\<close> mapped with \<open>f\<close> is \<open>Ok (f v)\<close>; \<open>Err e\<close> mapped is \<open>Err e\<close> and \<open>f\<close> is not
  invoked; \<open>then\<close> on \<open>Err e\<close> passes \<open>Err e\<close> through without invoking \<open>f\<close>; \<open>otherwise\<close>
  on \<open>Err e\<close> returns \<open>f e\<close>, and on \<open>Ok v\<close> returns \<open>v\<close> without invoking \<open>f\<close>.
\<close>

theorem Result_combinators:
  "Result_map (Ok v) f w = (Ok (fst (f v w)), snd (f v w))
   \<and> Result_map (Err e) f w = (Err e, w)
   \<and> Result_map (Err e) (counted f) (k, w) = (Err e, (k, w))
   \<and> Result_then (Err e) g w = (Err e, w)
   \<and> Result_then (Err e) (counted g) (k, w) = (Err e, (k, w))
   \<and> Result_otherwise (Err e) h w = h e w
   \<and> Result_otherwise (Ok v) h w = (v, w)
   \<and> Result_otherwise (Ok v) (counted h) (k, w) = (v, (k, w))"
  by (simp add: Result_map_def Result_then_def Result_otherwise_def counted_def
      split: prod.split)

section \<open>Properties of FenwickTree\<close>

subsection \<open>The loops\<close>

lemma query_loop_sum:
  assumes "\<forall>j. 1 \<le> j \<and> j \<le> n \<longrightarrow> t ! nat j = sum a {j - lowbit j ..< j}"
    and "int (length t) = n + 1" and "i \<le> n"
  shows "\<exists>tr'. query_loop t i acc tr = Inr (acc + sum a {0 ..< i}, tr')"
  using assms
proof (induction t i acc tr rule: query_loop.induct)
  case (1 t i acc tr)
  note cells = "1.prems"(1) and len = "1.prems"(2)
  show ?case
  proof (cases "0 < i")
    case False
    then show ?thesis by (simp add: query_loop.simps)
  next
    case True
    let ?l = "lowbit i"
    from True lowbit_bounds [of i] have lb: "0 < ?l" "?l \<le> i" by simp_all
    from "1.prems" have inr: "i < int (length t)" by simp
    from True "1.prems" have cell: "t ! nat i = sum a {i - ?l ..< i}" by simp
    have step: "query_loop t i acc tr = query_loop t (i - ?l) (acc + t ! nat i) (tr @ [i])"
      using True inr by (subst query_loop.simps) (simp add: lowbit_and)
    have "\<exists>tr'. query_loop t (i - ?l) (acc + t ! nat i) (tr @ [i])
             = Inr (acc + t ! nat i + sum a {0 ..< i - ?l}, tr')"
      using "1.IH" [OF True inr cells len] "1.prems"(3) lb by (simp add: lowbit_and)
    moreover have "acc + t ! nat i + sum a {0 ..< i - ?l} = acc + sum a {0 ..< i}"
    proof -
      have "{0 ..< i} = {0 ..< i - ?l} \<union> {i - ?l ..< i}" using lb by auto
      moreover have "{0 ..< i - ?l} \<inter> {i - ?l ..< i} = {}" by auto
      ultimately have "sum a {0 ..< i} = sum a {0 ..< i - ?l} + sum a {i - ?l ..< i}"
        by (simp add: sum.union_disjoint)
      with cell show ?thesis by (simp add: add.assoc add.commute)
    qed
    ultimately show ?thesis using step by simp
  qed
qed

lemma update_loop_spec:
  assumes "int (length t) = n + 1" and "0 \<le> p" and "p < i" and "i - lowbit i \<le> p"
  shows "\<exists>t' tr'. update_loop n delta i t tr = Some (Inr (t', tr')) \<and> length t' = length t \<and>
           (\<forall>j. 0 \<le> j \<and> j \<le> n \<longrightarrow>
              t' ! nat j = t ! nat j + (if i \<le> j \<and> j - lowbit j \<le> p then delta else 0))"
  using assms
proof (induction "nat (n + 1 - i)" arbitrary: i t tr rule: less_induct)
  case less
  show ?case
  proof (cases "i \<le> n")
    case False
    then show ?thesis by (subst update_loop.simps) simp
  next
    case True
    let ?l = "lowbit i" and ?t = "t[nat i := t ! nat i + delta]"
    from less.prems have ipos: "0 < i" by simp
    with lowbit_bounds [of i] have lb: "0 < ?l" "?l \<le> i" by simp_all
    from lowbit_next [OF ipos] less.prems lb have nxt: "i + ?l - lowbit (i + ?l) \<le> p" by simp
    have "\<exists>t' tr'. update_loop n delta (i + ?l) ?t (tr @ [i]) = Some (Inr (t', tr')) \<and>
           length t' = length ?t \<and>
           (\<forall>j. 0 \<le> j \<and> j \<le> n \<longrightarrow>
              t' ! nat j = ?t ! nat j + (if i + ?l \<le> j \<and> j - lowbit j \<le> p then delta else 0))"
      using less.prems lb True nxt by (intro less.hyps) simp_all
    then obtain t' tr' where t': "update_loop n delta (i + ?l) ?t (tr @ [i]) = Some (Inr (t', tr'))"
      "length t' = length t"
      "\<And>j. 0 \<le> j \<Longrightarrow> j \<le> n \<Longrightarrow>
          t' ! nat j = ?t ! nat j + (if i + ?l \<le> j \<and> j - lowbit j \<le> p then delta else 0)"
      by auto
    have run: "update_loop n delta i t tr = Some (Inr (t', tr'))"
      using True ipos less.prems(1) t'(1) by (subst update_loop.simps) (simp add: lowbit_and)
    have "t' ! nat j = t ! nat j + (if i \<le> j \<and> j - lowbit j \<le> p then delta else 0)"
      if j: "0 \<le> j" "j \<le> n" for j
    proof -
      consider "j < i" | "j = i" | "i < j" "j < i + ?l" | "i + ?l \<le> j" by linarith
      then show ?thesis
      proof cases
        case 1
        with j t'(3) [of j] lb ipos show ?thesis by (simp add: nat_eq_iff)
      next
        case 2
        with j t'(3) [of j] lb less.prems True show ?thesis by simp
      next
        case 3
        with lowbit_between [OF ipos, of j] have "i \<le> j - lowbit j" by simp
        with 3 j t'(3) [of j] less.prems ipos show ?thesis by (simp add: nat_eq_iff)
      next
        case 4
        with j t'(3) [of j] lb ipos show ?thesis by (simp add: nat_eq_iff)
      qed
    qed
    with run t'(2) show ?thesis by blast
  qed
qed

lemma query_loop_trace:
  assumes "i < int (length t)"
  shows "\<exists>v tr'. query_loop t i acc tr = Inr (v, tr') \<and> set tr' \<subseteq> set tr \<union> {1 .. i}"
  using assms
proof (induction t i acc tr rule: query_loop.induct)
  case (1 t i acc tr)
  show ?case
  proof (cases "0 < i")
    case False
    then show ?thesis by (simp add: query_loop.simps)
  next
    case True
    from True lowbit_bounds [of i] have lb: "0 < lowbit i" "lowbit i \<le> i" by simp_all
    have "\<exists>v tr'. query_loop t (i - lowbit i) (acc + t ! nat i) (tr @ [i]) = Inr (v, tr')
            \<and> set tr' \<subseteq> set (tr @ [i]) \<union> {1 .. i - lowbit i}"
      using "1.IH" [OF True "1.prems"] "1.prems" lb by (simp add: lowbit_and)
    then obtain v tr' where r: "query_loop t (i - lowbit i) (acc + t ! nat i) (tr @ [i]) = Inr (v, tr')"
      "set tr' \<subseteq> set (tr @ [i]) \<union> {1 .. i - lowbit i}" by blast
    have "query_loop t i acc tr = Inr (v, tr')"
      using True "1.prems" r(1) by (subst query_loop.simps) (simp add: lowbit_and)
    moreover have "set tr' \<subseteq> set tr \<union> {1 .. i}" using r(2) True lb by auto
    ultimately show ?thesis by blast
  qed
qed

lemma update_loop_trace:
  assumes "int (length t) = n + 1" and "1 \<le> i"
  shows "\<exists>t' tr'. update_loop n delta i t tr = Some (Inr (t', tr')) \<and> length t' = length t
           \<and> set tr' \<subseteq> set tr \<union> {1 .. n}"
  using assms
proof (induction "nat (n + 1 - i)" arbitrary: i t tr rule: less_induct)
  case less
  show ?case
  proof (cases "i \<le> n")
    case False
    then show ?thesis by (subst update_loop.simps) simp
  next
    case True
    let ?t = "t[nat i := t ! nat i + delta]"
    from less.prems lowbit_bounds [of i] have lb: "0 < lowbit i" by simp
    have "\<exists>t' tr'. update_loop n delta (i + lowbit i) ?t (tr @ [i]) = Some (Inr (t', tr'))
            \<and> length t' = length ?t \<and> set tr' \<subseteq> set (tr @ [i]) \<union> {1 .. n}"
      using less.prems lb True by (intro less.hyps) simp_all
    then obtain t' tr' where r: "update_loop n delta (i + lowbit i) ?t (tr @ [i]) = Some (Inr (t', tr'))"
      "length t' = length t" "set tr' \<subseteq> set (tr @ [i]) \<union> {1 .. n}" by auto
    have "update_loop n delta i t tr = Some (Inr (t', tr'))"
      using True less.prems r(1) by (subst update_loop.simps) (simp add: lowbit_and)
    moreover have "set tr' \<subseteq> set tr \<union> {1 .. n}" using r(3) True less.prems by auto
    ultimately show ?thesis using r(2) by blast
  qed
qed

subsection \<open>Prefix sums of the applied deltas\<close>

lemma sum_fun_upd_add:
  fixes a :: "int \<Rightarrow> i64"
  assumes "finite S"
  shows "sum (a(i := a i + d)) S = sum a S + (if i \<in> S then d else 0)"
proof -
  have "sum (a(i := a i + d)) S = sum (\<lambda>q. a q + (if q = i then d else 0)) S"
    by (rule sum.cong) auto
  also have "\<dots> = sum a S + sum (\<lambda>q. if q = i then d else 0) S"
    by (simp add: sum.distrib)
  also have "sum (\<lambda>q. if q = i then d else 0) S = (if i \<in> S then d else 0)"
    using assms by (simp add: sum.delta)
  finally show ?thesis .
qed

lemma sint_as_uint: "sint (w :: i64) = (uint w + 2 ^ 63) mod 2 ^ 64 - 2 ^ 63"
  using int_word_sint [of "uint w", where 'a = 64] by simp

lemma cells_of_size:
  fixes sz :: i64
  assumes "unat (sz + 1) < 2 ^ 63"
  shows "int (unat (sz + 1)) = sint sz + 1"
proof -
  let ?u = "uint sz"
  have u: "0 \<le> ?u" "?u < 2 ^ 64" using uint_lt2p [of sz] by simp_all
  have a: "int (unat (sz + 1)) = (?u + 1) mod 2 ^ 64"
    by (simp add: uint_word_ariths)
  with assms have b: "(?u + 1) mod 2 ^ 64 < 2 ^ 63"
    by (metis of_nat_less_iff of_nat_numeral of_nat_power)
  consider "?u + 1 < 2 ^ 63" | "?u + 1 = 2 ^ 64" | "2 ^ 63 \<le> ?u + 1" "?u + 1 < 2 ^ 64"
    using u by linarith
  then show ?thesis
  proof cases
    case 1
    with u a show ?thesis by (simp add: sint_as_uint)
  next
    case 2
    then have "?u = 2 ^ 64 - 1" by simp
    with a show ?thesis by (simp add: sint_as_uint)
  next
    case 3
    with u b show ?thesis by simp
  qed
qed

lemma FenwickTree_new_Inr:
  assumes "FenwickTree_new max_size sz = Inr ft0" and "max_size < 2 ^ 61"
  shows "ft_n ft0 = sint sz" and "int (length (tree ft0)) = sint sz + 1"
    and "sint sz < 2 ^ 61" and "- 1 \<le> sint sz"
    and "wellformed ft0" and "represents (\<lambda>_. 0) ft0"
proof -
  from assms(1) have le: "unat (sz + 1) \<le> max_size"
    and ft0: "ft0 = \<lparr>tree = replicate (unat (sz + 1)) 0, ft_n = sint sz\<rparr>"
    by (auto simp: FenwickTree_new_def split: if_splits)
  from le assms(2) have small: "unat (sz + 1) < 2 ^ 61" by simp
  then have "unat (sz + 1) < 2 ^ 63"
    by (rule less_trans) simp
  from cells_of_size [OF this] have cells: "int (unat (sz + 1)) = sint sz + 1" .
  from cells have cn: "unat (sz + 1) = nat (sint sz + 1)" by linarith
  show "ft_n ft0 = sint sz" by (simp add: ft0)
  show len: "int (length (tree ft0)) = sint sz + 1" using cells by (simp add: ft0)
  from small have "int (unat (sz + 1)) < 2 ^ 61"
    by (metis of_nat_less_iff of_nat_numeral of_nat_power)
  with cells show "sint sz < 2 ^ 61" by simp
  from cells show "- 1 \<le> sint sz" by linarith
  show "wellformed ft0" using cells by (simp add: wellformed_def ft0)
  show "represents (\<lambda>_. 0) ft0"
    unfolding represents_def
  proof (intro conjI allI impI)
    show "length (tree ft0) = nat (ft_n ft0 + 1)" by (simp add: ft0 cn)
  next
    fix j assume "1 \<le> j \<and> j \<le> ft_n ft0"
    then have "nat j < unat (sz + 1)" by (simp add: ft0 cn)
    then show "tree ft0 ! nat j = sum (\<lambda>_. 0) {j - lowbit j ..< j}" by (simp add: ft0)
  qed
qed

lemma in_i64_sint: "- (2 ^ 63) \<le> v \<Longrightarrow> v < 2 ^ 63 \<Longrightarrow> sint (word_of_int v :: i64) = v"
  by (simp add: int_word_sint)

lemma up_i64_agrees:
  assumes "1 \<le> j" and "j < 2 ^ 61"
  shows "sint (up_i64 (word_of_int j)) = j + (j AND (- j))"
proof -
  from lowbit_bounds [of j] assms have "0 < lowbit j" "lowbit j \<le> j" by simp_all
  with assms have "- (2 ^ 63) \<le> j + lowbit j" "j + lowbit j < 2 ^ 63" by simp_all
  from in_i64_sint [OF this] show ?thesis
    by (simp add: up_i64_def of_int_and_eq lowbit_def)
qed

lemma down_i64_agrees:
  assumes "1 \<le> j" and "j < 2 ^ 61"
  shows "sint (down_i64 (word_of_int j)) = j - (j AND (- j))"
proof -
  from lowbit_bounds [of j] assms have "0 < lowbit j" "lowbit j \<le> j" by simp_all
  with assms have "- (2 ^ 63) \<le> j - lowbit j" "j - lowbit j < 2 ^ 63" by simp_all
  from in_i64_sint [OF this] show ?thesis
    by (simp add: down_i64_def of_int_and_eq lowbit_def)
qed

lemma represents_update:
  assumes "represents a ft" and "0 \<le> i" and "i < ft_n ft"
  shows "\<exists>ft'. update ft i d = Some (Inr ft') \<and> ft_n ft' = ft_n ft \<and>
           represents (a(i := a i + d)) ft'"
proof -
  from assms(1) have len: "int (length (tree ft)) = ft_n ft + 1"
    and cells: "\<And>j. 1 \<le> j \<Longrightarrow> j \<le> ft_n ft \<Longrightarrow> tree ft ! nat j = sum a {j - lowbit j ..< j}"
    using assms(2,3) by (auto simp: represents_def)
  from lowbit_bounds [of "i + 1"] assms(2) have "i + 1 - lowbit (i + 1) \<le> i" by simp
  with update_loop_spec [OF len assms(2), of "i + 1" d "[]"]
  obtain t' tr' where t': "update_loop (ft_n ft) d (i + 1) (tree ft) [] = Some (Inr (t', tr'))"
    "length t' = length (tree ft)"
    "\<And>j. 0 \<le> j \<Longrightarrow> j \<le> ft_n ft \<Longrightarrow>
        t' ! nat j = tree ft ! nat j + (if i + 1 \<le> j \<and> j - lowbit j \<le> i then d else 0)"
    by auto
  let ?ft = "ft\<lparr>tree := t'\<rparr>"
  have "update ft i d = Some (Inr ?ft)"
    using assms(2,3) t'(1) by (simp add: update_def)
  moreover have "represents (a(i := a i + d)) ?ft"
    unfolding represents_def
  proof (intro conjI allI impI)
    show "length (tree ?ft) = nat (ft_n ?ft + 1)" using t'(2) len by simp
  next
    fix j assume j: "1 \<le> j \<and> j \<le> ft_n ?ft"
    then have "tree ?ft ! nat j
        = sum a {j - lowbit j ..< j} + (if i + 1 \<le> j \<and> j - lowbit j \<le> i then d else 0)"
      using t'(3) [of j] cells [of j] by simp
    also have "\<dots> = sum (a(i := a i + d)) {j - lowbit j ..< j}"
      by (subst sum_fun_upd_add) auto
    finally show "tree ?ft ! nat j = sum (a(i := a i + d)) {j - lowbit j ..< j}" .
  qed
  ultimately show ?thesis by auto
qed

lemma represents_query:
  assumes "represents a ft" and "0 \<le> i" and "i < ft_n ft"
  shows "query ft i = Inr (sum a {0 .. i})"
proof -
  from assms(1) have len: "int (length (tree ft)) = ft_n ft + 1"
    and cells: "\<forall>j. 1 \<le> j \<and> j \<le> ft_n ft \<longrightarrow> tree ft ! nat j = sum a {j - lowbit j ..< j}"
    using assms(2,3) by (auto simp: represents_def)
  have "{0 ..< i + 1} = {0 .. i}" by auto
  with query_loop_sum [OF cells len, of "i + 1" 0 "[]"] assms(2,3) show ?thesis
    by (auto simp: query_def)
qed

lemma represents_rangequery:
  assumes "represents a ft" and "0 \<le> l" and "l \<le> r" and "r < ft_n ft"
  shows "rangequery ft l r = Inr (sum a {l .. r})"
proof (cases "0 < l")
  case False
  with assms have "l = 0" by simp
  with assms represents_query [OF assms(1), of r] show ?thesis
    by (simp add: rangequery_def)
next
  case True
  have qr: "query ft r = Inr (sum a {0 .. r})"
    using assms by (intro represents_query) simp_all
  have ql: "query ft (l - 1) = Inr (sum a {0 .. l - 1})"
    using assms True by (intro represents_query) simp_all
  have "{0 .. r} = {0 .. l - 1} \<union> {l .. r}" using assms True by auto
  moreover have "{0 .. l - 1} \<inter> {l .. r} = {}" by auto
  ultimately have "sum a {0 .. r} = sum a {0 .. l - 1} + sum a {l .. r}"
    by (simp add: sum.union_disjoint)
  with qr ql True assms show ?thesis by (simp add: rangequery_def)
qed

lemma applied_Cons: "applied ((i, d) # us) = (applied us)(i := applied us i + d)"
  by (auto simp: applied_def fun_eq_iff)

lemma sum_applied: "sum (applied us) {l .. r} = brute us l r"
proof (induction us)
  case Nil
  then show ?case by (simp add: applied_def brute_def)
next
  case (Cons u us)
  obtain i d where u: "u = (i, d)" by (cases u)
  have "sum (applied (u # us)) {l .. r} = sum (applied us) {l .. r} + (if i \<in> {l .. r} then d else 0)"
    unfolding u applied_Cons by (rule sum_fun_upd_add) simp
  with Cons show ?case by (simp add: u brute_def)
qed

lemma represents_updates:
  assumes "represents a ft" and "\<forall>(i, d) \<in> set us. 0 \<le> i \<and> i < ft_n ft"
  shows "\<exists>ft'. updates ft us = Some (Inr ft') \<and> ft_n ft' = ft_n ft \<and>
           represents (\<lambda>q. a q + applied us q) ft'"
  using assms
proof (induction us arbitrary: a ft)
  case Nil
  then show ?case by (simp add: applied_def)
next
  case (Cons u us)
  obtain i d where u: "u = (i, d)" by (cases u)
  from Cons.prems u have i: "0 \<le> i" "i < ft_n ft" by auto
  from represents_update [OF Cons.prems(1) i, of d]
  obtain ft1 where ft1: "update ft i d = Some (Inr ft1)" "ft_n ft1 = ft_n ft"
    "represents (a(i := a i + d)) ft1" by auto
  from Cons.prems(2) ft1(2) have "\<forall>(i, d) \<in> set us. 0 \<le> i \<and> i < ft_n ft1" by simp
  from Cons.IH [OF ft1(3) this]
  obtain ft' where ft': "updates ft1 us = Some (Inr ft')" "ft_n ft' = ft_n ft1"
    "represents (\<lambda>q. (a(i := a i + d)) q + applied us q) ft'" by auto
  have "(\<lambda>q. (a(i := a i + d)) q + applied us q) = (\<lambda>q. a q + applied (u # us) q)"
    by (auto simp: u applied_Cons fun_eq_iff)
  with ft' ft1 u show ?case by simp
qed

text \<open>
  C1. For every tree the constructor returns for a size \<open>n \<ge> 1\<close> and every sequence of
  updates at positions in \<open>[0, n)\<close>, all calls return, and for \<open>0 \<le> l \<le> r < n\<close> the
  range query over \<open>[l, r]\<close> is the sum of the deltas applied at positions in \<open>[l, r]\<close>,
  and the prefix query at \<open>r\<close> is that sum over \<open>[0, r]\<close>. Sums are \<open>i64\<close> sums. The
  constructor's argument is an \<open>i64\<close>, and \<open>max_size\<close> is any bound below \<open>2^61\<close>.
\<close>

theorem fenwick_rangequery_sum:
  assumes "max_size < 2 ^ 61" and "FenwickTree_new max_size sz = Inr ft0" and "1 \<le> sint sz"
    and "\<forall>(i, d) \<in> set us. 0 \<le> i \<and> i < sint sz"
    and "0 \<le> l" and "l \<le> r" and "r < sint sz"
  shows "\<exists>ft. updates ft0 us = Some (Inr ft) \<and>
           rangequery ft l r = Inr (brute us l r) \<and> query ft r = Inr (brute us 0 r)"
proof -
  note new = FenwickTree_new_Inr [OF assms(2,1)]
  from assms(4) new(1) have "\<forall>(i, d) \<in> set us. 0 \<le> i \<and> i < ft_n ft0" by simp
  from represents_updates [OF new(6) this]
  obtain ft where ft: "updates ft0 us = Some (Inr ft)" "ft_n ft = sint sz"
    "represents (applied us) ft" using new(1) by auto
  have "rangequery ft l r = Inr (brute us l r)"
    using represents_rangequery [OF ft(3), of l r] assms(5-7) ft(2) by (simp add: sum_applied)
  moreover have "query ft r = Inr (brute us 0 r)"
    using represents_query [OF ft(3), of r] assms(5-7) ft(2) by (simp add: sum_applied)
  ultimately show ?thesis using ft(1) by blast
qed

text \<open>
  The example of the specification: size 10, \<open>update(3,5)\<close>, \<open>update(5,10)\<close>,
  \<open>update(7,3)\<close>; then \<open>query(7) = 18\<close> and \<open>rangequery(3,5) = 15\<close>.
\<close>

theorem fenwick_rangequery_sum_witness:
  "example_max_size < 2 ^ 61
   \<and> FenwickTree_new example_max_size 10 = Inr \<lparr>tree = replicate 11 0, ft_n = 10\<rparr>
   \<and> (\<exists>ft. updates \<lparr>tree = replicate 11 0, ft_n = 10\<rparr> [(3, 5), (5, 10), (7, 3)] = Some (Inr ft)
         \<and> query ft 7 = Inr 18 \<and> rangequery ft 3 5 = Inr 15)"
proof -
  let ?us = "[(3, 5), (5, 10), (7, 3)] :: (int \<times> i64) list"
  let ?ft0 = "\<lparr>tree = replicate 11 0, ft_n = 10\<rparr>"
  have m: "example_max_size < 2 ^ 61" by (simp add: example_max_size_def)
  have new: "FenwickTree_new example_max_size 10 = Inr ?ft0"
    by (simp add: FenwickTree_new_def example_max_size_def)
  have n: "1 \<le> sint (10 :: i64)" by simp
  have h: "\<forall>(i, d) \<in> set ?us. 0 \<le> i \<and> i < sint (10 :: i64)" by simp
  from fenwick_rangequery_sum [OF m new n h, of 3 5]
  obtain ft where a: "updates ?ft0 ?us = Some (Inr ft)"
    "rangequery ft 3 5 = Inr (brute ?us 3 5)" by auto
  from fenwick_rangequery_sum [OF m new n h, of 0 7]
  obtain ft' where b: "updates ?ft0 ?us = Some (Inr ft')"
    "query ft' 7 = Inr (brute ?us 0 7)" by auto
  from a b have "ft' = ft" by simp
  with a b have "\<exists>ft. updates ?ft0 ?us = Some (Inr ft)
         \<and> query ft 7 = Inr 18 \<and> rangequery ft 3 5 = Inr 15" by (simp add: brute_def)
  with m new show ?thesis by blast
qed

subsection \<open>Out-of-range arguments\<close>

lemma update_outside: "i < 0 \<or> ft_n ft \<le> i \<Longrightarrow> update ft i delta = Some (Inr ft)"
  by (auto simp: update_def)

lemma update_wellformed:
  assumes "wellformed ft"
  shows "\<exists>ft'. update ft i delta = Some (Inr ft') \<and> wellformed ft' \<and> ft_n ft' = ft_n ft"
proof (cases "i < 0 \<or> ft_n ft \<le> i")
  case True
  with assms show ?thesis by (simp add: update_outside)
next
  case False
  with assms update_loop_trace [of "tree ft" "ft_n ft" "i + 1" delta "[]"]
  obtain t' tr' where "update_loop (ft_n ft) delta (i + 1) (tree ft) [] = Some (Inr (t', tr'))"
    "length t' = length (tree ft)" by (auto simp: wellformed_def)
  with False assms show ?thesis by (simp add: update_def wellformed_def)
qed

lemma query_negative: "i < 0 \<Longrightarrow> query ft i = Inr 0"
  by (simp add: query_def)

lemma query_clamped: "ft_n ft \<le> i \<Longrightarrow> query ft i = query ft (ft_n ft - 1)"
  by (simp add: query_def query_loop.simps [of _ "ft_n ft"])

lemma query_total:
  assumes "wellformed ft"
  shows "\<exists>v. query ft i = Inr v"
proof (cases "i < 0")
  case True
  then show ?thesis by (simp add: query_def)
next
  case False
  let ?i = "(if i \<ge> ft_n ft then ft_n ft - 1 else i) + 1"
  from assms have "?i < int (length (tree ft))" by (simp add: wellformed_def)
  from query_loop_trace [OF this, of 0 "[]"] False show ?thesis
    by (auto simp: query_def)
qed

lemma rangequery_outside:
  assumes "{l .. r} \<inter> {0 ..< ft_n ft} = {}"
  shows "rangequery ft l r = Inr 0"
proof (cases "l > r \<or> r < 0 \<or> l \<ge> ft_n ft")
  case True
  then show ?thesis by (simp add: rangequery_def)
next
  case False
  with assms have "ft_n ft \<le> 0"
  proof -
    have "max l 0 \<in> {l .. r} \<inter> {0 ..< ft_n ft}" if "0 < ft_n ft"
      using that False by auto
    with assms show ?thesis by fastforce
  qed
  with False have "l < 0" "ft_n ft \<le> r" "0 \<le> r" by simp_all
  with \<open>ft_n ft \<le> 0\<close> have "query ft r = Inr 0"
    by (simp add: query_def query_loop.simps [of _ "ft_n ft"])
  with False \<open>l < 0\<close> show ?thesis by (simp add: rangequery_def)
qed

lemma rangequery_inside:
  assumes "wellformed ft" and "{l .. r} \<inter> {0 ..< ft_n ft} \<noteq> {}"
  shows "\<exists>qr ql. query ft r = Inr qr \<and> query ft (l - 1) = Inr ql
           \<and> rangequery ft l r = Inr (qr - ql)"
proof -
  from assms(2) have g: "\<not> (l > r \<or> r < 0 \<or> l \<ge> ft_n ft)" by auto
  from query_total [OF assms(1)] obtain qr ql
    where q: "query ft r = Inr qr" "query ft (l - 1) = Inr ql" by blast
  show ?thesis
  proof (cases "0 < l")
    case True
    with g q show ?thesis by (simp add: rangequery_def)
  next
    case False
    with q(2) have "ql = 0" by (simp add: query_def)
    with False g q show ?thesis by (simp add: rangequery_def)
  qed
qed

lemma rangequery_total:
  assumes "wellformed ft"
  shows "\<exists>v. rangequery ft l r = Inr v"
  using rangequery_outside [of l r ft] rangequery_inside [OF assms, of l r] by blast

lemma run_total:
  assumes "wellformed ft"
  shows "\<exists>ft' out'. run ft out cs = Some (Inr (ft', out')) \<and> wellformed ft'"
  using assms
proof (induction cs arbitrary: ft out)
  case Nil
  then show ?case by simp
next
  case (Cons c cs)
  show ?case
  proof (cases c)
    case (Update i delta)
    from update_wellformed [OF Cons.prems, of i delta]
    obtain ft1 where "update ft i delta = Some (Inr ft1)" "wellformed ft1" by blast
    with Cons.IH [of ft1 out] Update show ?thesis by simp
  next
    case (Query i)
    from query_total [OF Cons.prems, of i] obtain v where "query ft i = Inr v" by blast
    with Cons.IH [OF Cons.prems] Query show ?thesis by simp
  next
    case (RangeQuery l r)
    from rangequery_total [OF Cons.prems, of l r] obtain v where "rangequery ft l r = Inr v"
      by blast
    with Cons.IH [OF Cons.prems] RangeQuery show ?thesis by simp
  qed
qed

lemma run_empty_tree:
  assumes "ft_n ft = 0"
  shows "\<exists>out'. run ft out cs = Some (Inr (ft, out')) \<and> set out' \<subseteq> set out \<union> {0}"
proof (induction cs arbitrary: out)
  case Nil
  then show ?case by auto
next
  case (Cons c cs)
  have q: "query ft i = Inr 0" for i
    using assms by (simp add: query_def query_loop.simps [of _ 0])
  have rq: "rangequery ft l r = Inr 0" for l r
    using assms by (intro rangequery_outside) simp
  from Cons.IH [of out] obtain o1 where o1: "run ft out cs = Some (Inr (ft, o1))"
    "set o1 \<subseteq> set out \<union> {0}" by blast
  from Cons.IH [of "out @ [0]"] obtain o2 where o2: "run ft (out @ [0]) cs = Some (Inr (ft, o2))"
    "set o2 \<subseteq> set (out @ [0]) \<union> {0}" by blast
  show ?case
  proof (cases c)
    case (Update i delta)
    have "update ft i delta = Some (Inr ft)" using assms by (intro update_outside) auto
    with o1 Update show ?thesis by simp
  next
    case (Query i)
    with q o2 show ?thesis by auto
  next
    case (RangeQuery l r)
    with rq o2 show ?thesis by auto
  qed
qed

text \<open>
  C6. On a tree whose vector has \<open>n + 1\<close> cells: an update at a position outside
  \<open>[0, n)\<close> returns the tree unchanged (so every later query is unchanged); a query at a
  negative position is \<open>0\<close>; a query at \<open>i \<ge> n\<close> is the query at \<open>n - 1\<close>; a range query
  is \<open>0\<close> when \<open>l > r\<close> or \<open>[l, r]\<close> does not meet \<open>[0, n)\<close>, and is otherwise
  \<open>query(r) - query(l - 1)\<close>.
\<close>

theorem fenwick_out_of_range_policy:
  assumes "wellformed ft"
  shows "(i < 0 \<or> ft_n ft \<le> i \<longrightarrow> update ft i delta = Some (Inr ft))
       \<and> (i < 0 \<longrightarrow> query ft i = Inr 0)
       \<and> (ft_n ft \<le> i \<longrightarrow> query ft i = query ft (ft_n ft - 1))
       \<and> (l > r \<or> {l .. r} \<inter> {0 ..< ft_n ft} = {} \<longrightarrow> rangequery ft l r = Inr 0)
       \<and> (\<not> (l > r \<or> {l .. r} \<inter> {0 ..< ft_n ft} = {}) \<longrightarrow>
            (\<exists>qr ql. query ft r = Inr qr \<and> query ft (l - 1) = Inr ql
               \<and> rangequery ft l r = Inr (qr - ql)))"
proof (intro conjI impI)
  assume "l > r \<or> {l .. r} \<inter> {0 ..< ft_n ft} = {}"
  then have "{l .. r} \<inter> {0 ..< ft_n ft} = {}" by auto
  then show "rangequery ft l r = Inr 0" by (rule rangequery_outside)
next
  assume "\<not> (l > r \<or> {l .. r} \<inter> {0 ..< ft_n ft} = {})"
  then show "\<exists>qr ql. query ft r = Inr qr \<and> query ft (l - 1) = Inr ql
               \<and> rangequery ft l r = Inr (qr - ql)"
    using rangequery_inside [OF assms, of l r] by simp
qed (simp_all add: update_outside query_negative query_clamped)

theorem fenwick_out_of_range_policy_witness:
  "wellformed example_tree
   \<and> update example_tree (- 1) 5 = Some (Inr example_tree)
   \<and> update example_tree 100 5 = Some (Inr example_tree)
   \<and> query example_tree (- 1) = Inr 0
   \<and> query example_tree 100 = query example_tree 9
   \<and> rangequery example_tree 5 3 = Inr 0
   \<and> rangequery example_tree 12 15 = Inr 0
   \<and> (\<exists>qr ql. query example_tree 5 = Inr qr \<and> query example_tree 2 = Inr ql
         \<and> rangequery example_tree 3 5 = Inr (qr - ql))"
proof -
  have wf: "wellformed example_tree" by (simp add: wellformed_def example_tree_def)
  have n: "ft_n example_tree = 10" by (simp add: example_tree_def)
  have meet: "{3 .. 5} \<inter> {0 ..< ft_n example_tree} \<noteq> {}"
  proof -
    have "(3 :: int) \<in> {3 .. 5} \<inter> {0 ..< ft_n example_tree}" by (simp add: n)
    then show ?thesis by blast
  qed
  have apart: "{12 .. 15} \<inter> {0 ..< ft_n example_tree} = {}" by (auto simp: n)
  from fenwick_out_of_range_policy [OF wf, where i = "- 1" and delta = 5 and l = 5 and r = 3]
  have a: "update example_tree (- 1) 5 = Some (Inr example_tree)"
    "query example_tree (- 1) = Inr 0" "rangequery example_tree 5 3 = Inr 0" by simp_all
  from fenwick_out_of_range_policy [OF wf, where i = 100 and delta = 5 and l = 12 and r = 15] apart
  have b: "update example_tree 100 5 = Some (Inr example_tree)"
    "query example_tree 100 = query example_tree 9" "rangequery example_tree 12 15 = Inr 0"
    by (simp_all add: n)
  from fenwick_out_of_range_policy [OF wf, where i = 100 and delta = 5 and l = 3 and r = 5] meet
  have c: "\<exists>qr ql. query example_tree 5 = Inr qr \<and> query example_tree 2 = Inr ql
         \<and> rangequery example_tree 3 5 = Inr (qr - ql)" by simp
  from wf a b c show ?thesis by simp
qed

text \<open>
  C10. For every tree the constructor returns for a size \<open>n \<ge> 0\<close> (an \<open>i64\<close>; \<open>max_size\<close>
  is any bound below \<open>2^61\<close>): the vector has \<open>n + 1\<close> cells and \<open>n < 2^61\<close>; every sequence
  of \<open>update\<close>, \<open>query\<close> and \<open>rangequery\<close> calls runs to its end without an out-of-range
  subscript (and returns); on size \<open>0\<close> the tree never changes and every value returned
  is \<open>0\<close>. On every vector of \<open>n + 1\<close> cells, the update loop entered as \<open>update\<close>
  enters it (at \<open>i + 1\<close> with \<open>0 \<le> i < n\<close>) and the query loop entered as \<open>query\<close>
  enters it (at \<open>i + 1\<close> with \<open>-1 \<le> i < n\<close>, after clamping) use subscripts in
  \<open>[1, n]\<close> only, and at each of them the next index as the source computes it in \<open>i64\<close>
  is the number the model computes: no index arithmetic wraps.
\<close>

theorem fenwick_accesses_in_bounds:
  assumes "max_size < 2 ^ 61" and "FenwickTree_new max_size sz = Inr ft0" and "0 \<le> sint sz"
  shows "ft_n ft0 = sint sz \<and> int (length (tree ft0)) = sint sz + 1 \<and> sint sz < 2 ^ 61
      \<and> (\<exists>ft out. run ft0 [] calls = Some (Inr (ft, out))
            \<and> (sint sz = 0 \<longrightarrow> ft = ft0 \<and> set out \<subseteq> {0}))
      \<and> (\<forall>t. int (length t) = sint sz + 1 \<longrightarrow>
            (\<forall>i delta. 0 \<le> i \<and> i < sint sz \<longrightarrow>
               (\<exists>t' tr. update_loop (sint sz) delta (i + 1) t [] = Some (Inr (t', tr))
                  \<and> length t' = length t
                  \<and> (\<forall>j \<in> set tr. 1 \<le> j \<and> j \<le> sint sz
                        \<and> sint (up_i64 (word_of_int j)) = j + (j AND (- j)))))
          \<and> (\<forall>i. - 1 \<le> i \<and> i < sint sz \<longrightarrow>
               (\<exists>v tr. query_loop t (i + 1) 0 [] = Inr (v, tr)
                  \<and> (\<forall>j \<in> set tr. 1 \<le> j \<and> j \<le> sint sz
                        \<and> sint (down_i64 (word_of_int j)) = j - (j AND (- j))))))"
proof -
  note new = FenwickTree_new_Inr [OF assms(2,1)]
  from run_total [OF new(5), of "[]" calls] obtain ft out
    where r: "run ft0 [] calls = Some (Inr (ft, out))" by blast
  have "ft = ft0 \<and> set out \<subseteq> {0}" if "sint sz = 0"
    using run_empty_tree [of ft0 "[]" calls] r that new(1) by auto
  with r have A: "\<exists>ft out. run ft0 [] calls = Some (Inr (ft, out))
            \<and> (sint sz = 0 \<longrightarrow> ft = ft0 \<and> set out \<subseteq> {0})" by blast
  have B: "\<exists>t' tr. update_loop (sint sz) delta (i + 1) t [] = Some (Inr (t', tr))
                  \<and> length t' = length t
                  \<and> (\<forall>j \<in> set tr. 1 \<le> j \<and> j \<le> sint sz
                        \<and> sint (up_i64 (word_of_int j)) = j + (j AND (- j)))"
    if "int (length t) = sint sz + 1" "0 \<le> i \<and> i < sint sz" for t i delta
  proof -
    from update_loop_trace [OF that(1), of "i + 1" delta "[]"] that(2)
    obtain t' tr where u: "update_loop (sint sz) delta (i + 1) t [] = Some (Inr (t', tr))"
      "length t' = length t" "set tr \<subseteq> {1 .. sint sz}" by auto
    have "\<forall>j \<in> set tr. 1 \<le> j \<and> j \<le> sint sz
            \<and> sint (up_i64 (word_of_int j)) = j + (j AND (- j))"
    proof
      fix j assume "j \<in> set tr"
      with u(3) have j: "1 \<le> j" "j \<le> sint sz" by auto
      with new(3) have "j < 2 ^ 61" by simp
      from up_i64_agrees [OF j(1) this] j
      show "1 \<le> j \<and> j \<le> sint sz \<and> sint (up_i64 (word_of_int j)) = j + (j AND (- j))"
        by simp
    qed
    with u(1,2) show ?thesis by (intro exI [of _ t'] exI [of _ tr] conjI)
  qed
  have C: "\<exists>v tr. query_loop t (i + 1) 0 [] = Inr (v, tr)
                  \<and> (\<forall>j \<in> set tr. 1 \<le> j \<and> j \<le> sint sz
                        \<and> sint (down_i64 (word_of_int j)) = j - (j AND (- j)))"
    if "int (length t) = sint sz + 1" "- 1 \<le> i \<and> i < sint sz" for t i
  proof -
    from that have "i + 1 < int (length t)" by simp
    from query_loop_trace [OF this, of 0 "[]"] obtain v tr
      where q: "query_loop t (i + 1) 0 [] = Inr (v, tr)" "set tr \<subseteq> {1 .. i + 1}" by auto
    have "\<forall>j \<in> set tr. 1 \<le> j \<and> j \<le> sint sz
            \<and> sint (down_i64 (word_of_int j)) = j - (j AND (- j))"
    proof
      fix j assume "j \<in> set tr"
      with q(2) that(2) have j: "1 \<le> j" "j \<le> sint sz" by auto
      with new(3) have "j < 2 ^ 61" by simp
      from down_i64_agrees [OF j(1) this] j
      show "1 \<le> j \<and> j \<le> sint sz \<and> sint (down_i64 (word_of_int j)) = j - (j AND (- j))"
        by simp
    qed
    with q(1) show ?thesis by (intro exI [of _ v] exI [of _ tr] conjI)
  qed
  show ?thesis
  proof (intro conjI allI impI)
    show "ft_n ft0 = sint sz" by (rule new(1))
  next
    show "int (length (tree ft0)) = sint sz + 1" by (rule new(2))
  next
    show "sint sz < 2 ^ 61" by (rule new(3))
  next
    show "\<exists>ft out. run ft0 [] calls = Some (Inr (ft, out))
            \<and> (sint sz = 0 \<longrightarrow> ft = ft0 \<and> set out \<subseteq> {0})" by (rule A)
  next
    fix t :: "i64 list" and i :: int and delta :: i64
    assume "int (length t) = sint sz + 1" and "0 \<le> i \<and> i < sint sz"
    then show "\<exists>t' tr. update_loop (sint sz) delta (i + 1) t [] = Some (Inr (t', tr))
                  \<and> length t' = length t
                  \<and> (\<forall>j \<in> set tr. 1 \<le> j \<and> j \<le> sint sz
                        \<and> sint (up_i64 (word_of_int j)) = j + (j AND (- j)))" by (rule B)
  next
    fix t :: "i64 list" and i :: int
    assume "int (length t) = sint sz + 1" and "- 1 \<le> i \<and> i < sint sz"
    then show "\<exists>v tr. query_loop t (i + 1) 0 [] = Inr (v, tr)
                  \<and> (\<forall>j \<in> set tr. 1 \<le> j \<and> j \<le> sint sz
                        \<and> sint (down_i64 (word_of_int j)) = j - (j AND (- j)))" by (rule C)
  qed
qed

text \<open>
  Size 10 with the calls of the specification's examples, size 0, the two loops on
  concrete vectors, and two sizes the constructor refuses: the largest \<open>i64\<close>, where
  \<^verbatim>\<open>size + 1\<close> wraps, and a negative one.
\<close>

theorem fenwick_accesses_in_bounds_witness:
  "example_max_size < 2 ^ 61
   \<and> FenwickTree_new example_max_size 10 = Inr \<lparr>tree = replicate 11 0, ft_n = 10\<rparr>
   \<and> run \<lparr>tree = replicate 11 0, ft_n = 10\<rparr> []
         [Update 3 5, Update 5 10, Update 100 5, Update 7 3, Query 7,
          RangeQuery 3 5, Query (- 1), Query 100]
        = Some (Inr (example_tree, [18, 15, 0, 18]))
   \<and> FenwickTree_new example_max_size 0 = Inr \<lparr>tree = replicate 1 0, ft_n = 0\<rparr>
   \<and> run \<lparr>tree = replicate 1 0, ft_n = 0\<rparr> []
         [Update 0 5, Query 0, RangeQuery 0 3, RangeQuery (- 2) 3]
        = Some (Inr (\<lparr>tree = replicate 1 0, ft_n = 0\<rparr>, [0, 0, 0]))
   \<and> (\<exists>t' tr. update_loop 10 5 (3 + 1) (replicate 11 0) [] = Some (Inr (t', tr))
         \<and> (\<forall>j \<in> set tr. 1 \<le> j \<and> j \<le> 10
               \<and> sint (up_i64 (word_of_int j)) = j + (j AND (- j))))
   \<and> (\<exists>v tr. query_loop (tree example_tree) (7 + 1) 0 [] = Inr (v, tr)
         \<and> (\<forall>j \<in> set tr. 1 \<le> j \<and> j \<le> 10
               \<and> sint (down_i64 (word_of_int j)) = j - (j AND (- j))))
   \<and> FenwickTree_new example_max_size 9223372036854775807 = Inl LengthError
   \<and> FenwickTree_new example_max_size (- 5) = Inl LengthError"
proof -
  let ?cs = "[Update 3 5, Update 5 10, Update 100 5, Update 7 3, Query 7,
              RangeQuery 3 5, Query (- 1), Query 100]"
  let ?ds = "[Update 0 5, Query 0, RangeQuery 0 3, RangeQuery (- 2) 3]"
  let ?f10 = "\<lparr>tree = replicate 11 (0 :: i64), ft_n = 10\<rparr>"
  let ?f0 = "\<lparr>tree = replicate 1 (0 :: i64), ft_n = 0\<rparr>"
  have m: "example_max_size < 2 ^ 61" by (simp add: example_max_size_def)
  have new10: "FenwickTree_new example_max_size 10 = Inr ?f10"
    and new0: "FenwickTree_new example_max_size 0 = Inr ?f0"
    and refused: "FenwickTree_new example_max_size 9223372036854775807 = Inl LengthError"
      "FenwickTree_new example_max_size (- 5) = Inl LengthError"
    by (simp_all add: FenwickTree_new_def example_max_size_def)
  have s10: "0 \<le> sint (10 :: i64)" "sint (10 :: i64) = 10"
    and s0: "0 \<le> sint (0 :: i64)" "sint (0 :: i64) = 0" by simp_all
  have len: "int (length (replicate 11 (0 :: i64))) = sint (10 :: i64) + 1"
    "int (length (tree example_tree)) = sint (10 :: i64) + 1" by (simp_all add: example_tree_def)
  note t10 = fenwick_accesses_in_bounds [OF m new10 s10(1), of ?cs]
  note loops = t10 [THEN conjunct2, THEN conjunct2, THEN conjunct2, THEN conjunct2, rule_format]
  note U = loops [THEN conjunct1, rule_format]
  note Q = loops [THEN conjunct2, rule_format]
  have A: "run ?f10 [] ?cs = Some (Inr (example_tree, [18, 15, 0, 18]))"
    unfolding example_tree_def
    by (simp add: update_def query_def rangequery_def update_loop.simps query_loop.simps
        numeral_eq_Suc)
  have B: "run ?f0 [] ?ds = Some (Inr (?f0, [0, 0, 0]))"
    by (simp add: update_def query_def rangequery_def query_loop.simps)
  have C: "\<exists>t' tr. update_loop 10 5 (3 + 1) (replicate 11 0) [] = Some (Inr (t', tr))
         \<and> (\<forall>j \<in> set tr. 1 \<le> j \<and> j \<le> 10
               \<and> sint (up_i64 (word_of_int j)) = j + (j AND (- j)))"
  proof -
    have h: "0 \<le> (3 :: int) \<and> 3 < sint (10 :: i64)" by simp
    from U [OF len(1) h, of 5] obtain t' tr where
      "update_loop (sint (10 :: i64)) 5 (3 + 1) (replicate 11 0) [] = Some (Inr (t', tr))"
      "\<forall>j \<in> set tr. 1 \<le> j \<and> j \<le> sint (10 :: i64)
          \<and> sint (up_i64 (word_of_int j)) = j + (j AND (- j))" by blast
    then show ?thesis unfolding s10(2) by (intro exI [of _ t'] exI [of _ tr] conjI)
  qed
  have D: "\<exists>v tr. query_loop (tree example_tree) (7 + 1) 0 [] = Inr (v, tr)
         \<and> (\<forall>j \<in> set tr. 1 \<le> j \<and> j \<le> 10
               \<and> sint (down_i64 (word_of_int j)) = j - (j AND (- j)))"
  proof -
    have h: "- 1 \<le> (7 :: int) \<and> 7 < sint (10 :: i64)" by simp
    from Q [OF len(2) h] obtain v tr where
      "query_loop (tree example_tree) (7 + 1) 0 [] = Inr (v, tr)"
      "\<forall>j \<in> set tr. 1 \<le> j \<and> j \<le> sint (10 :: i64)
          \<and> sint (down_i64 (word_of_int j)) = j - (j AND (- j))" by blast
    then show ?thesis unfolding s10(2) by (intro exI [of _ v] exI [of _ tr] conjI)
  qed
  show ?thesis using m new10 new0 refused A B C D by (intro conjI)
qed

section \<open>Properties of DSU\<close>

subsection \<open>Roots and paths\<close>

lemma root_of_range: "root_of p x r \<Longrightarrow> 0 \<le> x \<and> x < int (length p)"
  by (cases rule: root_of.cases) auto

lemma root_of_root: "root_of p x r \<Longrightarrow> 0 \<le> r \<and> r < int (length p) \<and> p ! nat r = r"
  by (induction rule: root_of.induct) auto

lemma root_of_fixed: "root_of p x r \<Longrightarrow> p ! nat x = x \<Longrightarrow> r = x"
  by (cases rule: root_of.cases) auto

lemma root_of_parent: "root_of p x r \<Longrightarrow> p ! nat x \<noteq> x \<Longrightarrow> root_of p (p ! nat x) r"
  by (cases rule: root_of.cases) auto

lemma root_of_det: "root_of p x r \<Longrightarrow> root_of p x r' \<Longrightarrow> r = r'"
proof (induction arbitrary: r' rule: root_of.induct)
  case (root x)
  then show ?case using root_of_fixed by blast
next
  case (step x r)
  then show ?case using root_of_parent by blast
qed

lemma root_of_self: "root_of p x x \<longleftrightarrow> 0 \<le> x \<and> x < int (length p) \<and> p ! nat x = x"
  using root_of_root root_of.root by blast

lemma root_of_unfold:
  "root_of p x r \<longleftrightarrow>
     0 \<le> x \<and> x < int (length p) \<and> (if p ! nat x = x then r = x else root_of p (p ! nat x) r)"
  by (subst root_of.simps) auto

lemma on_path_root: "on_path p x y \<Longrightarrow> root_of p x r \<Longrightarrow> root_of p y r"
  by (induction rule: on_path.induct) (auto dest: root_of_parent)

lemma on_path_at_root:
  "0 \<le> x \<Longrightarrow> x < int (length p) \<Longrightarrow> p ! nat x = x \<Longrightarrow> on_path p x y \<longleftrightarrow> y = x"
  by (subst on_path.simps) auto

lemma on_path_below_root:
  "0 \<le> x \<Longrightarrow> x < int (length p) \<Longrightarrow> p ! nat x \<noteq> x \<Longrightarrow>
     on_path p x y \<longleftrightarrow> y = x \<or> on_path p (p ! nat x) y"
  by (subst on_path.simps) auto

lemma forest_root: "forest p \<Longrightarrow> 0 \<le> x \<Longrightarrow> x < int (length p) \<Longrightarrow> \<exists>r. root_of p x r"
  by (simp add: forest_def)

lemma same_set_roots:
  "root_of p x rx \<Longrightarrow> root_of p y ry \<Longrightarrow> same_set p x y \<longleftrightarrow> rx = ry"
  unfolding same_set_def using root_of_det by blast

subsection \<open>find\<close>

lemma find_invalid: "x < 0 \<or> int (length (parent s)) \<le> x \<Longrightarrow> find s x = Some (s, - 1)"
  by (subst find.simps) auto

lemma find_root:
  assumes "root_of (parent s) x r"
  shows "\<exists>s'. find s x = Some (s', r) \<and> rank s' = rank s
           \<and> length (parent s') = length (parent s)
           \<and> (\<forall>y. 0 \<le> y \<and> y < int (length (parent s)) \<longrightarrow>
                  parent s' ! nat y = (if on_path (parent s) x y then r else parent s ! nat y))"
  using assms
proof (induction rule: root_of.induct)
  case (root x)
  then have "find s x = Some (s, x)" by (subst find.simps) simp
  with root show ?case by (auto simp: on_path_at_root)
next
  case (step x r)
  then obtain s1 where s1: "find s (parent s ! nat x) = Some (s1, r)" "rank s1 = rank s"
    "length (parent s1) = length (parent s)"
    "\<And>y. 0 \<le> y \<Longrightarrow> y < int (length (parent s)) \<Longrightarrow>
       parent s1 ! nat y = (if on_path (parent s) (parent s ! nat x) y then r else parent s ! nat y)"
    by auto
  let ?s = "s1\<lparr>parent := (parent s1)[nat x := r]\<rparr>"
  from step.hyps s1(3) have inr: "nat x < length (parent s1)" by simp
  have "find s x = Some (?s, r)"
    using step.hyps s1(1) inr by (subst find.simps) simp
  moreover have "parent ?s ! nat y = (if on_path (parent s) x y then r else parent s ! nat y)"
    if y: "0 \<le> y" "y < int (length (parent s))" for y
  proof (cases "y = x")
    case True
    with inr step.hyps show ?thesis by (simp add: on_path.here)
  next
    case False
    with y step.hyps have "nat y \<noteq> nat x" by simp
    with s1(4) [OF y] False step.hyps show ?thesis
      by (simp add: on_path_below_root)
  qed
  ultimately show ?case using s1(2,3) by auto
qed

subsection \<open>Path compression keeps roots\<close>

lemma compressed_refl: "compressed p p"
  by (simp add: compressed_def)

lemma compressed_root_of:
  assumes "compressed p p'" and "root_of p y r"
  shows "root_of p' y r"
  using assms(2)
proof (induction rule: root_of.induct)
  case (root x)
  with assms(1) have "p' ! nat x = x"
    by (auto simp: compressed_def dest: root_of_fixed)
  with root assms(1) show ?case by (simp add: compressed_def root_of.root)
next
  case (step x r)
  from assms(1) step.hyps have len: "x < int (length p')" by (simp add: compressed_def)
  from assms(1) step.hyps consider "p' ! nat x = p ! nat x" | "root_of p x (p' ! nat x)"
    by (auto simp: compressed_def)
  then show ?case
  proof cases
    case 1
    with step len show ?thesis by (auto intro: root_of.step)
  next
    case 2
    have "root_of p x r" using step.hyps by (auto intro: root_of.step)
    with 2 have eq: "p' ! nat x = r" using root_of_det by blast
    from root_of_root [OF \<open>root_of p x r\<close>] step.hyps have "r \<noteq> x" by auto
    moreover from step.IH root_of_root have "root_of p' r r" by (simp add: root_of_self)
    ultimately show ?thesis using step.hyps len eq by (auto intro: root_of.step)
  qed
qed

lemma compressed_root_of_iff:
  assumes "forest p" and "compressed p p'"
  shows "root_of p' y r \<longleftrightarrow> root_of p y r"
proof
  assume a: "root_of p' y r"
  with assms(2) have "0 \<le> y" "y < int (length p)"
    using root_of_range [OF a] by (simp_all add: compressed_def)
  with assms(1) obtain r0 where r0: "root_of p y r0" using forest_root by blast
  with assms(2) have "root_of p' y r0" by (rule compressed_root_of)
  with a have "r = r0" by (rule root_of_det)
  with r0 show "root_of p y r" by simp
next
  assume "root_of p y r"
  with assms(2) show "root_of p' y r" by (rule compressed_root_of)
qed

lemma compressed_forest:
  assumes "forest p" and "compressed p p'"
  shows "forest p'"
  unfolding forest_def
proof (intro allI impI)
  fix x assume x: "0 \<le> x \<and> x < int (length p')"
  with assms(2) have xp: "0 \<le> x" "x < int (length p)" by (simp_all add: compressed_def)
  with assms(1) obtain r where r: "root_of p x r" using forest_root by blast
  then have "root_of p' x r" using assms(2) compressed_root_of by blast
  moreover have "0 \<le> p' ! nat x \<and> p' ! nat x < int (length p')"
  proof -
    from assms(2) xp consider "p' ! nat x = p ! nat x" | "root_of p x (p' ! nat x)"
      by (auto simp: compressed_def)
    then show ?thesis
    proof cases
      case 1
      with assms xp show ?thesis by (simp add: forest_def compressed_def)
    next
      case 2
      from root_of_root [OF 2] assms(2) show ?thesis by (simp add: compressed_def)
    qed
  qed
  ultimately show "0 \<le> p' ! nat x \<and> p' ! nat x < int (length p') \<and> (\<exists>r. root_of p' x r)"
    by blast
qed

lemma compressed_trans:
  assumes "forest p" and "compressed p p1" and "compressed p1 p2"
  shows "compressed p p2"
  unfolding compressed_def
proof (intro conjI allI impI)
  show "length p2 = length p" using assms(2,3) by (simp add: compressed_def)
next
  fix y assume y: "0 \<le> y \<and> y < int (length p)"
  with assms(2,3) consider "p2 ! nat y = p1 ! nat y" | "root_of p1 y (p2 ! nat y)"
    by (auto simp: compressed_def)
  then show "p2 ! nat y = p ! nat y \<or> root_of p y (p2 ! nat y)"
  proof cases
    case 1
    with assms(2) y show ?thesis by (auto simp: compressed_def)
  next
    case 2
    with compressed_root_of_iff [OF assms(1,2)] show ?thesis by simp
  qed
qed

lemma compressed_fixed:
  assumes "compressed p p'" and "0 \<le> j" and "j < int (length p)"
  shows "p' ! nat j = j \<longleftrightarrow> p ! nat j = j"
proof
  assume a: "p' ! nat j = j"
  from assms consider "p' ! nat j = p ! nat j" | "root_of p j (p' ! nat j)"
    by (auto simp: compressed_def)
  then show "p ! nat j = j"
  proof cases
    case 1
    with a show ?thesis by simp
  next
    case 2
    with a show ?thesis by (simp add: root_of_self)
  qed
next
  assume a: "p ! nat j = j"
  from assms consider "p' ! nat j = p ! nat j" | "root_of p j (p' ! nat j)"
    by (auto simp: compressed_def)
  then show "p' ! nat j = j"
  proof cases
    case 1
    with a show ?thesis by simp
  next
    case 2
    with a show ?thesis using root_of_fixed by blast
  qed
qed

lemma compressed_same_set:
  assumes "forest p" and "compressed p p'"
  shows "same_set p' a b \<longleftrightarrow> same_set p a b"
  by (simp add: same_set_def compressed_root_of_iff [OF assms])

lemma compressed_inv:
  "dsu_inv s \<Longrightarrow> rank s' = rank s \<Longrightarrow> compressed (parent s) (parent s') \<Longrightarrow> dsu_inv s'"
  using compressed_forest by (auto simp: dsu_inv_def compressed_def)

lemma find_compressed:
  assumes "root_of (parent s) x r"
  shows "\<exists>s'. find s x = Some (s', r) \<and> rank s' = rank s \<and> compressed (parent s) (parent s')"
proof -
  from find_root [OF assms] obtain s' where s': "find s x = Some (s', r)" "rank s' = rank s"
    "length (parent s') = length (parent s)"
    "\<And>y. 0 \<le> y \<Longrightarrow> y < int (length (parent s)) \<Longrightarrow>
       parent s' ! nat y = (if on_path (parent s) x y then r else parent s ! nat y)"
    by auto
  have "compressed (parent s) (parent s')"
    unfolding compressed_def using s'(3,4) on_path_root [OF _ assms] by auto
  with s' show ?thesis by blast
qed

lemma find_total:
  assumes "forest (parent s)"
  shows "\<exists>s' r. find s x = Some (s', r) \<and> rank s' = rank s
           \<and> compressed (parent s) (parent s')
           \<and> (if valid s x then root_of (parent s) x r else r = - 1 \<and> s' = s)"
proof (cases "valid s x")
  case True
  with assms obtain r where r: "root_of (parent s) x r"
    using forest_root by (auto simp: valid_def)
  from find_compressed [OF r] True r show ?thesis by auto
next
  case False
  then have "find s x = Some (s, - 1)" by (intro find_invalid) (auto simp: valid_def)
  with False show ?thesis by (simp add: compressed_refl)
qed

lemma find_twice:
  assumes "forest (parent s)"
  shows "\<exists>s1 px s2 py. find s x = Some (s1, px) \<and> find s1 y = Some (s2, py)
           \<and> rank s2 = rank s \<and> compressed (parent s) (parent s2)
           \<and> (if valid s x then root_of (parent s) x px else px = - 1)
           \<and> (if valid s y then root_of (parent s) y py else py = - 1)"
proof -
  from find_total [OF assms, of x] obtain s1 px where 1: "find s x = Some (s1, px)"
    "rank s1 = rank s" "compressed (parent s) (parent s1)"
    "if valid s x then root_of (parent s) x px else px = - 1 \<and> s1 = s" by blast
  from compressed_forest [OF assms 1(3)] have f1: "forest (parent s1)" .
  from find_total [OF f1, of y] obtain s2 py where 2: "find s1 y = Some (s2, py)"
    "rank s2 = rank s1" "compressed (parent s1) (parent s2)"
    "if valid s1 y then root_of (parent s1) y py else py = - 1 \<and> s2 = s1" by blast
  from 1(3) have v: "valid s1 y \<longleftrightarrow> valid s y" by (simp add: valid_def compressed_def)
  have "if valid s y then root_of (parent s) y py else py = - 1"
    using 2(4) v compressed_root_of_iff [OF assms 1(3)] by (auto split: if_splits)
  moreover have "compressed (parent s) (parent s2)"
    using compressed_trans [OF assms 1(3) 2(3)] .
  ultimately show ?thesis using 1 2 by (auto split: if_splits)
qed

lemma connected_spec:
  assumes "forest (parent s)"
  shows "\<exists>s'. connected s x y = Some (s', valid s x \<and> valid s y \<and> same_set (parent s) x y)
           \<and> rank s' = rank s \<and> compressed (parent s) (parent s')"
proof -
  from find_twice [OF assms, of x y] obtain s1 px s2 py where
    f: "find s x = Some (s1, px)" "find s1 y = Some (s2, py)" "rank s2 = rank s"
      "compressed (parent s) (parent s2)"
      "if valid s x then root_of (parent s) x px else px = - 1"
      "if valid s y then root_of (parent s) y py else py = - 1" by blast
  have "(px \<ge> 0 \<and> py \<ge> 0 \<and> px = py) \<longleftrightarrow> (valid s x \<and> valid s y \<and> same_set (parent s) x y)"
  proof (cases "valid s x \<and> valid s y")
    case True
    with f(5,6) have r: "root_of (parent s) x px" "root_of (parent s) y py" by simp_all
    from root_of_root [OF r(1)] root_of_root [OF r(2)] same_set_roots [OF r] True
    show ?thesis by auto
  next
    case False
    with f(5,6) show ?thesis by (auto split: if_splits)
  qed
  with f show ?thesis by (simp add: connected_def)
qed

subsection \<open>Linking two roots\<close>

lemma link_root_of:
  assumes a: "0 \<le> a" "a < int (length p)" "p ! nat a = a"
    and b: "0 \<le> b" "b < int (length p)" "p ! nat b = b" and "a \<noteq> b"
    and "root_of p y r"
  shows "root_of (p[nat b := a]) y (if r = b then a else r)"
  using assms(8)
proof (induction rule: root_of.induct)
  case (root x)
  from a b \<open>a \<noteq> b\<close> have ra: "root_of (p[nat b := a]) a a"
    by (simp add: root_of_self nat_eq_iff)
  show ?case
  proof (cases "x = b")
    case True
    with ra b \<open>a \<noteq> b\<close> show ?thesis by (auto intro: root_of.step)
  next
    case False
    with root b have "(p[nat b := a]) ! nat x = x" by (simp add: nat_eq_iff)
    with root False show ?thesis by (simp add: root_of_self)
  qed
next
  case (step x r)
  with b have "x \<noteq> b" by auto
  with step.hyps b have "(p[nat b := a]) ! nat x = p ! nat x" by (simp add: nat_eq_iff)
  with step show ?case by (auto intro: root_of.step)
qed

lemma link_forest:
  assumes "forest p"
    and a: "0 \<le> a" "a < int (length p)" "p ! nat a = a"
    and b: "0 \<le> b" "b < int (length p)" "p ! nat b = b" and "a \<noteq> b"
  shows "forest (p[nat b := a])"
  unfolding forest_def
proof (intro allI impI)
  fix x assume "0 \<le> x \<and> x < int (length (p[nat b := a]))"
  then have x: "0 \<le> x" "x < int (length p)" by simp_all
  with assms(1) obtain r where "root_of p x r" using forest_root by blast
  from link_root_of [OF a b \<open>a \<noteq> b\<close> this]
  have "\<exists>r. root_of (p[nat b := a]) x r" by blast
  moreover have "0 \<le> (p[nat b := a]) ! nat x \<and> (p[nat b := a]) ! nat x < int (length (p[nat b := a]))"
    using assms(1) x a by (cases "nat x = nat b") (simp_all add: forest_def)
  ultimately show "0 \<le> (p[nat b := a]) ! nat x \<and> (p[nat b := a]) ! nat x < int (length (p[nat b := a]))
      \<and> (\<exists>r. root_of (p[nat b := a]) x r)" by blast
qed

lemma num_roots_card: "num_roots p = card {j. j < length p \<and> p ! j = int j}"
proof -
  have "{j. p ! j = int j} \<inter> set [0 ..< length p] = {j. j < length p \<and> p ! j = int j}" by auto
  then show ?thesis by (simp add: num_roots_def distinct_length_filter)
qed

lemma link_num_roots:
  assumes a: "0 \<le> a" and b: "0 \<le> b" "b < int (length p)" "p ! nat b = b" and "a \<noteq> b"
  shows "num_roots (p[nat b := a]) = num_roots p - 1" and "0 < num_roots p"
proof -
  let ?R = "{j. j < length p \<and> p ! j = int j}"
  have "((p[nat b := a]) ! j = int j) = (p ! j = int j \<and> j \<noteq> nat b)" if "j < length p" for j
  proof (cases "j = nat b")
    case True
    with that b \<open>a \<noteq> b\<close> show ?thesis by simp
  next
    case False
    then show ?thesis by simp
  qed
  then have "{j. j < length (p[nat b := a]) \<and> (p[nat b := a]) ! j = int j} = ?R - {nat b}"
    by auto
  moreover have "nat b \<in> ?R" using b by simp
  moreover have "finite ?R" by simp
  ultimately show "num_roots (p[nat b := a]) = num_roots p - 1" and "0 < num_roots p"
    by (auto simp: num_roots_card card_gt_0_iff)
qed

lemma compressed_num_roots:
  assumes "compressed p p'"
  shows "num_roots p' = num_roots p"
proof -
  have "(p' ! j = int j) = (p ! j = int j)" if "j < length p" for j
    using compressed_fixed [OF assms, of "int j"] that by simp
  moreover have "length p' = length p" using assms by (simp add: compressed_def)
  ultimately have "{j. j < length p' \<and> p' ! j = int j} = {j. j < length p \<and> p ! j = int j}"
    by auto
  then show ?thesis by (simp add: num_roots_card)
qed

subsection \<open>unite and components\<close>

lemma unite_false:
  assumes "dsu_inv s" and "\<not> valid s x \<or> \<not> valid s y \<or> same_set (parent s) x y"
  shows "\<exists>s'. unite s x y = Some (Inr (s', False)) \<and> rank s' = rank s
           \<and> compressed (parent s) (parent s')"
proof -
  from assms(1) have f: "forest (parent s)" by (simp add: dsu_inv_def)
  from find_twice [OF f, of x y] obtain s1 px s2 py where
    t: "find s x = Some (s1, px)" "find s1 y = Some (s2, py)" "rank s2 = rank s"
      "compressed (parent s) (parent s2)"
      "if valid s x then root_of (parent s) x px else px = - 1"
      "if valid s y then root_of (parent s) y py else py = - 1" by blast
  have "px < 0 \<or> py < 0 \<or> px = py"
  proof (cases "valid s x \<and> valid s y")
    case True
    with t(5,6) have r: "root_of (parent s) x px" "root_of (parent s) y py" by simp_all
    with assms(2) True same_set_roots [OF r] show ?thesis by simp
  next
    case False
    with t(5,6) show ?thesis by (auto split: if_splits)
  qed
  with t show ?thesis by (auto simp: unite_def)
qed

lemma unite_true:
  assumes "dsu_inv s" and "root_of (parent s) x rx" and "root_of (parent s) y ry" and "rx \<noteq> ry"
  shows "\<exists>s' p2. unite s x y = Some (Inr (s', True)) \<and> compressed (parent s) p2
           \<and> parent s' = p2[nat (if rank s ! nat rx < rank s ! nat ry then rx else ry) :=
                              (if rank s ! nat rx < rank s ! nat ry then ry else rx)]
           \<and> rank s' = (if rank s ! nat rx = rank s ! nat ry
                         then (rank s)[nat rx := rank s ! nat rx + 1] else rank s)"
proof -
  from assms(1) have f: "forest (parent s)" and len: "length (rank s) = length (parent s)"
    by (simp_all add: dsu_inv_def)
  from root_of_range [OF assms(2)] root_of_range [OF assms(3)]
  have v: "valid s x" "valid s y" by (simp_all add: valid_def)
  from find_twice [OF f, of x y] v obtain s1 px s2 py where
    t: "find s x = Some (s1, px)" "find s1 y = Some (s2, py)" "rank s2 = rank s"
      "compressed (parent s) (parent s2)"
      "root_of (parent s) x px" "root_of (parent s) y py" by auto
  from t(5) assms(2) have px: "px = rx" by (rule root_of_det)
  from t(6) assms(3) have py: "py = ry" by (rule root_of_det)
  from root_of_root [OF assms(2)] root_of_root [OF assms(3)] len t(3,4)
  have rg: "0 \<le> rx" "0 \<le> ry" "rx < int (length (rank s2))" "ry < int (length (rank s2))"
    "rx < int (length (parent s2))" "ry < int (length (parent s2))"
    by (simp_all add: compressed_def)
  from assms(4) rg have ne: "nat rx \<noteq> nat ry" by simp
  show ?thesis
  proof (cases "rank s ! nat rx < rank s ! nat ry")
    case True
    with t(1,2,3) px py rg assms(4) ne
    have "unite s x y = Some (Inr (s2\<lparr>parent := (parent s2)[nat rx := ry]\<rparr>, True))"
      by (simp add: unite_def Let_def)
    with True t(3,4) show ?thesis by (intro exI [of _ "parent s2"] exI) auto
  next
    case False
    show ?thesis
    proof (cases "rank s ! nat rx = rank s ! nat ry")
      case True
      with False t(1,2,3) px py rg assms(4) ne
      have "unite s x y = Some (Inr (s2\<lparr>parent := (parent s2)[nat ry := rx],
              rank := (rank s)[nat rx := rank s ! nat rx + 1]\<rparr>, True))"
        by (simp add: unite_def Let_def)
      with True False t(3,4) show ?thesis by (intro exI [of _ "parent s2"] exI) auto
    next
      case ne_rank: False
      with False t(1,2,3) px py rg assms(4) ne
      have "unite s x y = Some (Inr (s2\<lparr>parent := (parent s2)[nat ry := rx]\<rparr>, True))"
        by (simp add: unite_def Let_def)
      with ne_rank False t(3,4) show ?thesis by (intro exI [of _ "parent s2"] exI) auto
    qed
  qed
qed

lemma unite_link:
  assumes "dsu_inv s" and "root_of (parent s) x rx" and "root_of (parent s) y ry" and "rx \<noteq> ry"
  shows "\<exists>s' a b. unite s x y = Some (Inr (s', True)) \<and> dsu_inv s'
           \<and> a = (if rank s ! nat rx < rank s ! nat ry then ry else rx)
           \<and> b = (if rank s ! nat rx < rank s ! nat ry then rx else ry)
           \<and> parent s' ! nat b = a \<and> parent s' ! nat a = a
           \<and> rank s' = (if rank s ! nat rx = rank s ! nat ry
                         then (rank s)[nat rx := rank s ! nat rx + 1] else rank s)
           \<and> (\<forall>z r. root_of (parent s) z r \<longrightarrow> root_of (parent s') z (if r = b then a else r))
           \<and> num_roots (parent s') = num_roots (parent s) - 1 \<and> 0 < num_roots (parent s)"
proof -
  define a where "a = (if rank s ! nat rx < rank s ! nat ry then ry else rx)"
  define b where "b = (if rank s ! nat rx < rank s ! nat ry then rx else ry)"
  from assms(1) have f: "forest (parent s)" and len: "length (rank s) = length (parent s)"
    by (simp_all add: dsu_inv_def)
  from unite_true [OF assms] obtain s' p2 where
    u: "unite s x y = Some (Inr (s', True))" "compressed (parent s) p2"
      "parent s' = p2[nat b := a]"
      "rank s' = (if rank s ! nat rx = rank s ! nat ry
                         then (rank s)[nat rx := rank s ! nat rx + 1] else rank s)"
    unfolding a_def b_def by blast
  from compressed_forest [OF f u(2)] have f2: "forest p2" .
  from u(2) have l2: "length p2 = length (parent s)" by (simp add: compressed_def)
  have "root_of (parent s) rx rx" "root_of (parent s) ry ry"
    using root_of_root [OF assms(2)] root_of_root [OF assms(3)] by (simp_all add: root_of_self)
  then have roots: "root_of p2 rx rx" "root_of p2 ry ry"
    using compressed_root_of [OF u(2)] by blast+
  then have a: "0 \<le> a" "a < int (length p2)" "p2 ! nat a = a"
    and b: "0 \<le> b" "b < int (length p2)" "p2 ! nat b = b"
    by (simp_all add: a_def b_def root_of_self)
  from assms(4) have ab: "a \<noteq> b" by (simp add: a_def b_def)
  from link_forest [OF f2 a b ab] u(3) have "forest (parent s')" by simp
  moreover have "length (rank s') = length (parent s')" using u(3,4) len l2 by simp
  ultimately have inv: "dsu_inv s'" by (simp add: dsu_inv_def)
  have pb: "parent s' ! nat b = a" using u(3) b by simp
  have pa: "parent s' ! nat a = a" using u(3) a b ab by (simp add: nat_eq_iff)
  have rt: "root_of (parent s') z (if r = b then a else r)" if "root_of (parent s) z r" for z r
  proof -
    from that have "root_of p2 z r" using compressed_root_of [OF u(2)] by blast
    from link_root_of [OF a b ab this] u(3) show ?thesis by simp
  qed
  have nr: "num_roots (parent s') = num_roots (parent s) - 1" "0 < num_roots (parent s)"
    using link_num_roots [OF a(1) b ab] u(3) compressed_num_roots [OF u(2)] by simp_all
  from u(1,4) inv pb pa rt nr show ?thesis
    unfolding a_def b_def by blast
qed

lemma unite_total:
  assumes "dsu_inv s"
  shows "\<exists>s' b. unite s x y = Some (Inr (s', b)) \<and> dsu_inv s'
           \<and> (b \<longleftrightarrow> valid s x \<and> valid s y \<and> \<not> same_set (parent s) x y)
           \<and> int (num_roots (parent s')) = (if b then int (num_roots (parent s)) - 1
                                            else int (num_roots (parent s)))"
proof (cases "valid s x \<and> valid s y \<and> \<not> same_set (parent s) x y")
  case False
  with unite_false [OF assms, of x y] obtain s' where
    u: "unite s x y = Some (Inr (s', False))" "rank s' = rank s"
      "compressed (parent s) (parent s')" by blast
  from compressed_inv [OF assms u(2,3)] compressed_num_roots [OF u(3)] u(1) False
  show ?thesis by auto
next
  case True
  from assms have f: "forest (parent s)" by (simp add: dsu_inv_def)
  from True have vx: "0 \<le> x" "x < int (length (parent s))"
    and vy: "0 \<le> y" "y < int (length (parent s))" by (simp_all add: valid_def)
  from forest_root [OF f vx] forest_root [OF f vy] obtain rx ry where
    r: "root_of (parent s) x rx" "root_of (parent s) y ry" by blast
  with True same_set_roots [OF r] have "rx \<noteq> ry" by simp
  from unite_link [OF assms r this] obtain s' where
    "unite s x y = Some (Inr (s', True))" "dsu_inv s'"
    "num_roots (parent s') = num_roots (parent s) - 1" "0 < num_roots (parent s)" by blast
  with True show ?thesis by auto
qed

lemma components_loop_spec:
  assumes "forest (parent s)"
  shows "\<exists>s'. components_loop s i c
             = Some (s', c + int (length (filter (\<lambda>j. parent s ! j = int j) [i ..< length (parent s)])))
           \<and> rank s' = rank s \<and> compressed (parent s) (parent s')"
  using assms
proof (induction "length (parent s) - i" arbitrary: s i c)
  case 0
  then have "components_loop s i c = Some (s, c)" by (subst components_loop.simps) simp
  with 0 show ?case by (simp add: compressed_refl)
next
  case (Suc k)
  let ?p = "parent s" and ?n = "length (parent s)"
  from Suc.hyps(2) have i: "i < ?n" by simp
  then have v: "valid s (int i)" by (simp add: valid_def)
  from find_total [OF Suc.prems, of "int i"] v obtain s1 r where
    f: "find s (int i) = Some (s1, r)" "rank s1 = rank s" "compressed ?p (parent s1)"
      "root_of ?p (int i) r" by auto
  from f(3) have len: "length (parent s1) = ?n" by (simp add: compressed_def)
  from compressed_forest [OF Suc.prems f(3)] have f1: "forest (parent s1)" .
  let ?c = "if r = int i then c + 1 else c"
  from Suc.hyps(2) len have "k = length (parent s1) - (i + 1)" by simp
  from Suc.hyps(1) [OF this f1, of ?c] obtain s' where
    r: "components_loop s1 (i + 1) ?c
          = Some (s', ?c + int (length (filter (\<lambda>j. parent s1 ! j = int j) [i + 1 ..< length (parent s1)])))"
      "rank s' = rank s1" "compressed (parent s1) (parent s')" by blast
  have same: "filter (\<lambda>j. parent s1 ! j = int j) [i + 1 ..< ?n] = filter (\<lambda>j. ?p ! j = int j) [i + 1 ..< ?n]"
  proof (rule filter_cong [OF refl])
    fix j assume "j \<in> set [i + 1 ..< ?n]"
    then have "j < ?n" by simp
    with compressed_fixed [OF f(3), of "int j"] show "(parent s1 ! j = int j) = (?p ! j = int j)"
      by simp
  qed
  have ri: "r = int i \<longleftrightarrow> ?p ! i = int i"
    using f(4) root_of_fixed [OF f(4)] by (auto simp: root_of_self)
  have "[i ..< ?n] = i # [i + 1 ..< ?n]" using i by (simp add: upt_conv_Cons)
  then have cnt: "int (length (filter (\<lambda>j. ?p ! j = int j) [i ..< ?n]))
      = (if r = int i then 1 else 0) + int (length (filter (\<lambda>j. ?p ! j = int j) [i + 1 ..< ?n]))"
    using ri by simp
  have "components_loop s i c = components_loop s1 (i + 1) ?c"
    using i f(1) by (subst components_loop.simps) simp
  with r(1) same cnt len have "components_loop s i c
      = Some (s', c + int (length (filter (\<lambda>j. ?p ! j = int j) [i ..< ?n])))" by simp
  moreover have "compressed ?p (parent s')" using compressed_trans [OF Suc.prems f(3) r(3)] .
  ultimately show ?case using r(2) f(2) by auto
qed

lemma components_spec:
  assumes "forest (parent s)"
  shows "\<exists>s'. components s = Some (s', int (num_roots (parent s)))
           \<and> rank s' = rank s \<and> compressed (parent s) (parent s')"
  using components_loop_spec [OF assms, of 0 0] by (simp add: components_def num_roots_def)

lemma dsu_inv_iota: "dsu_inv \<lparr>parent = map int [0 ..< k], rank = replicate k 0\<rparr>"
proof -
  have "root_of (map int [0 ..< k]) x x" if "0 \<le> x" "x < int k" for x
    using that by (simp add: root_of_self)
  then show ?thesis
    by (auto simp: dsu_inv_def forest_def)
qed

lemma dsu_inv_new:
  assumes "DSU_new max_size n = Inr s0"
  shows "dsu_inv s0"
proof -
  from assms have "s0 = \<lparr>parent = map int [0 ..< unat n], rank = replicate (unat n) 0\<rparr>"
    by (auto simp: DSU_new_def split: if_splits)
  then show ?thesis by (simp only: dsu_inv_iota)
qed

lemma DSU_new_examples:
  "DSU_new example_max_size 4 = Inr \<lparr>parent = [0, 1, 2, 3], rank = [0, 0, 0, 0]\<rparr>"
  "DSU_new example_max_size 5 = Inr \<lparr>parent = [0, 1, 2, 3, 4], rank = [0, 0, 0, 0, 0]\<rparr>"
proof -
  have u: "unat (4 :: i64) = 4" "unat (5 :: i64) = 5" by simp_all
  have m: "\<not> example_max_size < 4" "\<not> example_max_size < 5"
    by (simp_all add: example_max_size_def)
  have p: "map int [0 ..< 4] = [0, 1, 2, 3]" "map int [0 ..< 5] = [0, 1, 2, 3, 4]"
    by (simp_all add: upt_rec)
  have r: "replicate 4 (0 :: int) = [0, 0, 0, 0]" "replicate 5 (0 :: int) = [0, 0, 0, 0, 0]"
    by (simp_all add: numeral_eq_Suc)
  show "DSU_new example_max_size 4 = Inr \<lparr>parent = [0, 1, 2, 3], rank = [0, 0, 0, 0]\<rparr>"
    unfolding DSU_new_def u by (simp only: m p r if_False)
  show "DSU_new example_max_size 5 = Inr \<lparr>parent = [0, 1, 2, 3, 4], rank = [0, 0, 0, 0, 0]\<rparr>"
    unfolding DSU_new_def u by (simp only: m p r if_False)
qed

lemma example_dsu_inv: "dsu_inv example_dsu"
proof -
  let ?s0 = "\<lparr>parent = [0, 1, 2, 3, 4], rank = [0, 0, 0, 0, 0]\<rparr>"
  let ?s1 = "\<lparr>parent = [0, 0, 2, 3, 4], rank = [1, 0, 0, 0, 0]\<rparr>"
  let ?s2 = "\<lparr>parent = [0, 0, 2, 2, 4], rank = [1, 0, 1, 0, 0]\<rparr>"
  from DSU_new_examples(2) have 0: "dsu_inv ?s0" by (rule dsu_inv_new)
  have "unite ?s0 0 1 = Some (Inr (?s1, True))" by (simp add: unite_def find.simps)
  with unite_total [OF 0, of 0 1] have 1: "dsu_inv ?s1" by auto
  have "unite ?s1 2 3 = Some (Inr (?s2, True))" by (simp add: unite_def find.simps)
  with unite_total [OF 1, of 2 3] have 2: "dsu_inv ?s2" by auto
  have "unite ?s2 1 2 = Some (Inr (example_dsu, True))"
    by (simp add: unite_def find.simps example_dsu_def)
  with unite_total [OF 2, of 1 2] show ?thesis by auto
qed

lemma example_dsu_roots:
  "root_of (parent example_dsu) 3 0" "root_of (parent example_dsu) 1 0"
  "root_of (parent example_dsu) 4 4"
  by (simp_all add: example_dsu_def root_of_unfold)

lemma example_dsu_sets:
  "valid example_dsu 3" "valid example_dsu 1" "valid example_dsu 4" "\<not> valid example_dsu (- 1)"
  "same_set (parent example_dsu) 3 1" "\<not> same_set (parent example_dsu) 3 4"
  using example_dsu_roots same_set_roots [OF example_dsu_roots(1,2)]
    same_set_roots [OF example_dsu_roots(1,3)]
  by (simp_all add: valid_def example_dsu_def)

subsection \<open>Specified behaviour\<close>

text \<open>
  C2, as the code has it. In every state that satisfies the invariant: \<open>unite(x, y)\<close>
  returns false when \<open>x\<close> or \<open>y\<close> is outside \<open>[0, n)\<close> or both are in the same set, and
  then the ranks and every element's root are unchanged, while the parent array may
  differ by the path compression of the two \<open>find\<close> calls. Otherwise it returns true;
  with \<open>rx\<close>, \<open>ry\<close> the roots of \<open>x\<close> and \<open>y\<close> before the call, the root of lower rank
  gets the other root as its parent, a tie puts \<open>ry\<close> under \<open>rx\<close> and adds one to the
  rank of \<open>rx\<close>, and afterwards \<open>connected(x, y)\<close> is true.
\<close>

theorem unite_spec:
  assumes "dsu_inv s"
  shows "(\<not> valid s x \<or> \<not> valid s y \<or> same_set (parent s) x y \<longrightarrow>
            (\<exists>s'. unite s x y = Some (Inr (s', False)) \<and> rank s' = rank s
               \<and> compressed (parent s) (parent s')
               \<and> (\<forall>z r. root_of (parent s') z r \<longleftrightarrow> root_of (parent s) z r)))
       \<and> (valid s x \<and> valid s y \<and> \<not> same_set (parent s) x y \<longrightarrow>
            (\<exists>s' rx ry. root_of (parent s) x rx \<and> root_of (parent s) y ry
               \<and> unite s x y = Some (Inr (s', True))
               \<and> (rank s ! nat rx < rank s ! nat ry \<longrightarrow>
                     parent s' ! nat rx = ry \<and> parent s' ! nat ry = ry \<and> rank s' = rank s)
               \<and> (rank s ! nat ry < rank s ! nat rx \<longrightarrow>
                     parent s' ! nat ry = rx \<and> parent s' ! nat rx = rx \<and> rank s' = rank s)
               \<and> (rank s ! nat rx = rank s ! nat ry \<longrightarrow>
                     parent s' ! nat ry = rx \<and> parent s' ! nat rx = rx
                     \<and> rank s' = (rank s)[nat rx := rank s ! nat rx + 1])
               \<and> (\<exists>s''. connected s' x y = Some (s'', True))))"
proof (intro conjI impI)
  assume a: "\<not> valid s x \<or> \<not> valid s y \<or> same_set (parent s) x y"
  from assms have f: "forest (parent s)" by (simp add: dsu_inv_def)
  from unite_false [OF assms a] obtain s' where
    u: "unite s x y = Some (Inr (s', False))" "rank s' = rank s"
      "compressed (parent s) (parent s')" by blast
  with compressed_root_of_iff [OF f u(3)]
  show "\<exists>s'. unite s x y = Some (Inr (s', False)) \<and> rank s' = rank s
               \<and> compressed (parent s) (parent s')
               \<and> (\<forall>z r. root_of (parent s') z r \<longleftrightarrow> root_of (parent s) z r)" by blast
next
  assume a: "valid s x \<and> valid s y \<and> \<not> same_set (parent s) x y"
  from assms have f: "forest (parent s)" by (simp add: dsu_inv_def)
  from a have vx: "0 \<le> x" "x < int (length (parent s))"
    and vy: "0 \<le> y" "y < int (length (parent s))" by (simp_all add: valid_def)
  from forest_root [OF f vx] forest_root [OF f vy] obtain rx ry where
    r: "root_of (parent s) x rx" "root_of (parent s) y ry" by blast
  with a same_set_roots [OF r] have ne: "rx \<noteq> ry" by simp
  from unite_link [OF assms r ne] obtain s' a b where
    u: "unite s x y = Some (Inr (s', True))" "dsu_inv s'"
      "a = (if rank s ! nat rx < rank s ! nat ry then ry else rx)"
      "b = (if rank s ! nat rx < rank s ! nat ry then rx else ry)"
      "parent s' ! nat b = a" "parent s' ! nat a = a"
      "rank s' = (if rank s ! nat rx = rank s ! nat ry
                         then (rank s)[nat rx := rank s ! nat rx + 1] else rank s)"
      "\<forall>z r. root_of (parent s) z r \<longrightarrow> root_of (parent s') z (if r = b then a else r)"
    by blast
  from u(2) have f': "forest (parent s')" by (simp add: dsu_inv_def)
  from u(8) r have r': "root_of (parent s') x (if rx = b then a else rx)"
    "root_of (parent s') y (if ry = b then a else ry)" by blast+
  have "(if rx = b then a else rx) = a" "(if ry = b then a else ry) = a"
    using u(3,4) ne by (auto split: if_splits)
  with r' have same: "same_set (parent s') x y" by (auto simp: same_set_def)
  from r' have v: "valid s' x" "valid s' y"
    using root_of_range by (auto simp: valid_def)
  from connected_spec [OF f', of x y] same v
  have conn: "\<exists>s''. connected s' x y = Some (s'', True)" by auto
  have lt: "parent s' ! nat rx = ry \<and> parent s' ! nat ry = ry \<and> rank s' = rank s"
    if "rank s ! nat rx < rank s ! nat ry"
    using that u(3-7) by simp
  have gt: "parent s' ! nat ry = rx \<and> parent s' ! nat rx = rx \<and> rank s' = rank s"
    if "rank s ! nat ry < rank s ! nat rx"
    using that u(3-7) by simp
  have eq: "parent s' ! nat ry = rx \<and> parent s' ! nat rx = rx
                     \<and> rank s' = (rank s)[nat rx := rank s ! nat rx + 1]"
    if "rank s ! nat rx = rank s ! nat ry"
    using that u(3-7) by simp
  from r u(1) lt gt eq conn
  show "\<exists>s' rx ry. root_of (parent s) x rx \<and> root_of (parent s) y ry
               \<and> unite s x y = Some (Inr (s', True))
               \<and> (rank s ! nat rx < rank s ! nat ry \<longrightarrow>
                     parent s' ! nat rx = ry \<and> parent s' ! nat ry = ry \<and> rank s' = rank s)
               \<and> (rank s ! nat ry < rank s ! nat rx \<longrightarrow>
                     parent s' ! nat ry = rx \<and> parent s' ! nat rx = rx \<and> rank s' = rank s)
               \<and> (rank s ! nat rx = rank s ! nat ry \<longrightarrow>
                     parent s' ! nat ry = rx \<and> parent s' ! nat rx = rx
                     \<and> rank s' = (rank s)[nat rx := rank s ! nat rx + 1])
               \<and> (\<exists>s''. connected s' x y = Some (s'', True))" by blast
qed

theorem unite_spec_witness:
  "dsu_inv example_dsu
   \<and> same_set (parent example_dsu) 3 1
   \<and> (\<exists>s'. unite example_dsu 3 1 = Some (Inr (s', False)) \<and> rank s' = rank example_dsu
         \<and> compressed (parent example_dsu) (parent s')
         \<and> (\<forall>z r. root_of (parent s') z r \<longleftrightarrow> root_of (parent example_dsu) z r))
   \<and> valid example_dsu 3 \<and> valid example_dsu 4 \<and> \<not> same_set (parent example_dsu) 3 4
   \<and> unite example_dsu 3 4
        = Some (Inr (\<lparr>parent = [0, 0, 0, 0, 0], rank = [2, 0, 1, 0, 0]\<rparr>, True))
   \<and> (\<exists>s' s''. unite example_dsu 3 4 = Some (Inr (s', True))
         \<and> connected s' 3 4 = Some (s'', True))"
proof -
  note inv = example_dsu_inv and e = example_dsu_sets
  from unite_spec [OF inv, of 3 1] e(5)
  have A: "\<exists>s'. unite example_dsu 3 1 = Some (Inr (s', False)) \<and> rank s' = rank example_dsu
         \<and> compressed (parent example_dsu) (parent s')
         \<and> (\<forall>z r. root_of (parent s') z r \<longleftrightarrow> root_of (parent example_dsu) z r)" by blast
  from unite_spec [OF inv, of 3 4] e(1,3,6)
  have B: "\<exists>s' s''. unite example_dsu 3 4 = Some (Inr (s', True))
         \<and> connected s' 3 4 = Some (s'', True)" by blast
  have C: "unite example_dsu 3 4
        = Some (Inr (\<lparr>parent = [0, 0, 0, 0, 0], rank = [2, 0, 1, 0, 0]\<rparr>, True))"
    by (simp add: example_dsu_def unite_def find.simps)
  from inv e A B C show ?thesis by simp
qed

text \<open>
  A call of \<open>unite\<close> that returns false is not a no-op on the state. In \<open>chain_dsu\<close>
  (reached from \<open>DSU(4)\<close> by three calls) both \<open>unite(3, -1)\<close>, with an invalid index, and
  \<open>unite(3, 0)\<close>, inside one set, return false and leave a different parent array.
\<close>

theorem unite_noop_counterexample:
  "DSU_new example_max_size 4 = Inr \<lparr>parent = [0, 1, 2, 3], rank = [0, 0, 0, 0]\<rparr>
   \<and> unite \<lparr>parent = [0, 1, 2, 3], rank = [0, 0, 0, 0]\<rparr> 0 1
        = Some (Inr (\<lparr>parent = [0, 0, 2, 3], rank = [1, 0, 0, 0]\<rparr>, True))
   \<and> unite \<lparr>parent = [0, 0, 2, 3], rank = [1, 0, 0, 0]\<rparr> 2 3
        = Some (Inr (\<lparr>parent = [0, 0, 2, 2], rank = [1, 0, 1, 0]\<rparr>, True))
   \<and> unite \<lparr>parent = [0, 0, 2, 2], rank = [1, 0, 1, 0]\<rparr> 0 2 = Some (Inr (chain_dsu, True))
   \<and> unite chain_dsu 3 (- 1)
        = Some (Inr (\<lparr>parent = [0, 0, 0, 0], rank = [2, 0, 1, 0]\<rparr>, False))
   \<and> unite chain_dsu 3 0
        = Some (Inr (\<lparr>parent = [0, 0, 0, 0], rank = [2, 0, 1, 0]\<rparr>, False))
   \<and> \<lparr>parent = [0, 0, 0, 0], rank = [2, 0, 1, 0]\<rparr> \<noteq> chain_dsu"
  by (simp add: DSU_new_examples chain_dsu_def unite_def find.simps)

text \<open>
  C5. In every state that satisfies the invariant: \<open>find(x)\<close> returns \<open>-1\<close> and leaves
  the state alone when \<open>x\<close> is outside \<open>[0, n)\<close>; otherwise it returns the root of \<open>x\<close>,
  and in the new parent array exactly the nodes on the path from \<open>x\<close> to the root have
  the root as their parent, every other entry being as before. \<open>connected(x, y)\<close> is true
  iff both are in \<open>[0, n)\<close> and \<open>find(x)\<close> equals \<open>find(y)\<close>. In particular \<open>find(-1)\<close>
  is \<open>-1\<close>, and \<open>unite(-1, 0)\<close> and \<open>connected(-1, 0)\<close> are false.
\<close>

theorem find_connected_spec:
  assumes "dsu_inv s"
  shows "(\<not> valid s x \<longrightarrow> find s x = Some (s, - 1))
       \<and> (valid s x \<longrightarrow>
            (\<exists>r s'. root_of (parent s) x r \<and> find s x = Some (s', r) \<and> rank s' = rank s
               \<and> length (parent s') = length (parent s)
               \<and> (\<forall>z. valid s z \<longrightarrow>
                     parent s' ! nat z = (if on_path (parent s) x z then r else parent s ! nat z))))
       \<and> (\<exists>s1 px s2 py s'. find s x = Some (s1, px) \<and> find s y = Some (s2, py)
               \<and> connected s x y = Some (s', valid s x \<and> valid s y \<and> px = py))
       \<and> find s (- 1) = Some (s, - 1)
       \<and> (\<exists>s'. unite s (- 1) 0 = Some (Inr (s', False)))
       \<and> (\<exists>s'. connected s (- 1) 0 = Some (s', False))"
proof -
  from assms have f: "forest (parent s)" by (simp add: dsu_inv_def)
  have A: "find s x = Some (s, - 1)" if "\<not> valid s x"
    using that by (intro find_invalid) (auto simp: valid_def)
  have B: "\<exists>r s'. root_of (parent s) x r \<and> find s x = Some (s', r) \<and> rank s' = rank s
               \<and> length (parent s') = length (parent s)
               \<and> (\<forall>z. valid s z \<longrightarrow>
                     parent s' ! nat z = (if on_path (parent s) x z then r else parent s ! nat z))"
    if "valid s x"
  proof -
    from that have "0 \<le> x" "x < int (length (parent s))" by (simp_all add: valid_def)
    from forest_root [OF f this] obtain r where r: "root_of (parent s) x r" by blast
    from find_root [OF r] r show ?thesis unfolding valid_def by blast
  qed
  have C: "\<exists>s1 px s2 py s'. find s x = Some (s1, px) \<and> find s y = Some (s2, py)
               \<and> connected s x y = Some (s', valid s x \<and> valid s y \<and> px = py)"
  proof -
    from find_total [OF f, of x] obtain s1 px where
      x: "find s x = Some (s1, px)" "if valid s x then root_of (parent s) x px else px = - 1 \<and> s1 = s"
      by blast
    from find_total [OF f, of y] obtain s2 py where
      y: "find s y = Some (s2, py)" "if valid s y then root_of (parent s) y py else py = - 1 \<and> s2 = s"
      by blast
    from connected_spec [OF f, of x y] obtain s' where
      c: "connected s x y = Some (s', valid s x \<and> valid s y \<and> same_set (parent s) x y)" by blast
    have "(valid s x \<and> valid s y \<and> same_set (parent s) x y) = (valid s x \<and> valid s y \<and> px = py)"
    proof (cases "valid s x \<and> valid s y")
      case True
      with x(2) y(2) have "root_of (parent s) x px" "root_of (parent s) y py" by simp_all
      from same_set_roots [OF this] True show ?thesis by simp
    next
      case False
      then show ?thesis by auto
    qed
    with x(1) y(1) c show ?thesis by simp
  qed
  have nv: "\<not> valid s (- 1)" by (simp add: valid_def)
  have D: "find s (- 1) = Some (s, - 1)" by (intro find_invalid) simp
  from unite_false [OF assms, of "- 1" 0] nv
  have E: "\<exists>s'. unite s (- 1) 0 = Some (Inr (s', False))" by blast
  from connected_spec [OF f, of "- 1" 0] nv
  have F: "\<exists>s'. connected s (- 1) 0 = Some (s', False)" by auto
  from A B C D E F show ?thesis by blast
qed

theorem find_connected_spec_witness:
  "dsu_inv example_dsu
   \<and> \<not> valid example_dsu (- 1) \<and> find example_dsu (- 1) = Some (example_dsu, - 1)
   \<and> valid example_dsu 3
   \<and> (\<exists>r s'. root_of (parent example_dsu) 3 r \<and> find example_dsu 3 = Some (s', r)
         \<and> rank s' = rank example_dsu \<and> length (parent s') = length (parent example_dsu)
         \<and> (\<forall>z. valid example_dsu z \<longrightarrow>
               parent s' ! nat z
                 = (if on_path (parent example_dsu) 3 z then r else parent example_dsu ! nat z)))
   \<and> find example_dsu 3 = Some (\<lparr>parent = [0, 0, 0, 0, 4], rank = [2, 0, 1, 0, 0]\<rparr>, 0)
   \<and> (\<exists>s'. unite example_dsu (- 1) 0 = Some (Inr (s', False)))
   \<and> (\<exists>s'. connected example_dsu (- 1) 0 = Some (s', False))
   \<and> connected example_dsu 0 3 = Some (\<lparr>parent = [0, 0, 0, 0, 4], rank = [2, 0, 1, 0, 0]\<rparr>, True)
   \<and> connected example_dsu 0 4 = Some (example_dsu, False)"
proof -
  note inv = example_dsu_inv and e = example_dsu_sets
  note t = find_connected_spec [OF inv, of 3 1]
  from t e(1) have B: "\<exists>r s'. root_of (parent example_dsu) 3 r \<and> find example_dsu 3 = Some (s', r)
         \<and> rank s' = rank example_dsu \<and> length (parent s') = length (parent example_dsu)
         \<and> (\<forall>z. valid example_dsu z \<longrightarrow>
               parent s' ! nat z
                 = (if on_path (parent example_dsu) 3 z then r else parent example_dsu ! nat z))"
    by blast
  from t have D: "find example_dsu (- 1) = Some (example_dsu, - 1)"
    "\<exists>s'. unite example_dsu (- 1) 0 = Some (Inr (s', False))"
    "\<exists>s'. connected example_dsu (- 1) 0 = Some (s', False)" by blast+
  have E: "find example_dsu 3 = Some (\<lparr>parent = [0, 0, 0, 0, 4], rank = [2, 0, 1, 0, 0]\<rparr>, 0)"
    "connected example_dsu 0 3 = Some (\<lparr>parent = [0, 0, 0, 0, 4], rank = [2, 0, 1, 0, 0]\<rparr>, True)"
    "connected example_dsu 0 4 = Some (example_dsu, False)"
    by (simp_all add: example_dsu_def connected_def find.simps)
  from inv e(1,4) B D E show ?thesis by simp
qed

text \<open>
  C8. Every operation returns and preserves the invariant (valid parent entries, every
  element reaches a root that is its own parent); \<open>find\<close>, \<open>connected\<close> and \<open>components\<close>
  leave the same-set relation as it was; and \<open>components\<close> called twice in a row returns
  the same count.
\<close>

theorem dsu_invariant_preserved:
  assumes "dsu_inv s"
  shows "(\<exists>s' r. find s x = Some (s', r) \<and> dsu_inv s'
            \<and> (\<forall>a b. same_set (parent s') a b \<longleftrightarrow> same_set (parent s) a b))
       \<and> (\<exists>s' b. unite s x y = Some (Inr (s', b)) \<and> dsu_inv s')
       \<and> (\<exists>s' b. connected s x y = Some (s', b) \<and> dsu_inv s'
            \<and> (\<forall>a b. same_set (parent s') a b \<longleftrightarrow> same_set (parent s) a b))
       \<and> (\<exists>s' c s'' c'. components s = Some (s', c) \<and> dsu_inv s'
            \<and> (\<forall>a b. same_set (parent s') a b \<longleftrightarrow> same_set (parent s) a b)
            \<and> components s' = Some (s'', c') \<and> c' = c)"
proof -
  from assms have f: "forest (parent s)" by (simp add: dsu_inv_def)
  from find_total [OF f, of x] obtain s1 r where
    1: "find s x = Some (s1, r)" "rank s1 = rank s" "compressed (parent s) (parent s1)" by blast
  from 1 compressed_inv [OF assms 1(2,3)] compressed_same_set [OF f 1(3)]
  have A: "\<exists>s' r. find s x = Some (s', r) \<and> dsu_inv s'
            \<and> (\<forall>a b. same_set (parent s') a b \<longleftrightarrow> same_set (parent s) a b)" by blast
  from unite_total [OF assms, of x y]
  have B: "\<exists>s' b. unite s x y = Some (Inr (s', b)) \<and> dsu_inv s'" by blast
  from connected_spec [OF f, of x y] obtain s2 b where
    2: "connected s x y = Some (s2, b)" "rank s2 = rank s" "compressed (parent s) (parent s2)"
    by blast
  from 2 compressed_inv [OF assms 2(2,3)] compressed_same_set [OF f 2(3)]
  have C: "\<exists>s' b. connected s x y = Some (s', b) \<and> dsu_inv s'
            \<and> (\<forall>a b. same_set (parent s') a b \<longleftrightarrow> same_set (parent s) a b)" by blast
  from components_spec [OF f] obtain s3 where
    3: "components s = Some (s3, int (num_roots (parent s)))" "rank s3 = rank s"
      "compressed (parent s) (parent s3)" by blast
  from compressed_inv [OF assms 3(2,3)] have i3: "dsu_inv s3" .
  then have f3: "forest (parent s3)" by (simp add: dsu_inv_def)
  from components_spec [OF f3] obtain s4 where
    4: "components s3 = Some (s4, int (num_roots (parent s3)))" by blast
  from compressed_num_roots [OF 3(3)] 3(1) 4 i3 compressed_same_set [OF f 3(3)]
  have D: "\<exists>s' c s'' c'. components s = Some (s', c) \<and> dsu_inv s'
            \<and> (\<forall>a b. same_set (parent s') a b \<longleftrightarrow> same_set (parent s) a b)
            \<and> components s' = Some (s'', c') \<and> c' = c" by auto
  from A B C D show ?thesis by blast
qed

theorem dsu_invariant_preserved_witness:
  "(\<exists>s0. DSU_new example_max_size 5 = Inr s0 \<and> dsu_inv s0)
   \<and> dsu_inv example_dsu
   \<and> (\<exists>s' r. find example_dsu 3 = Some (s', r) \<and> dsu_inv s'
         \<and> (\<forall>a b. same_set (parent s') a b \<longleftrightarrow> same_set (parent example_dsu) a b))
   \<and> (\<exists>s' b. unite example_dsu 3 4 = Some (Inr (s', b)) \<and> dsu_inv s')
   \<and> (\<exists>s' b. connected example_dsu 3 4 = Some (s', b) \<and> dsu_inv s'
         \<and> (\<forall>a b. same_set (parent s') a b \<longleftrightarrow> same_set (parent example_dsu) a b))
   \<and> (\<exists>s' s''. components example_dsu = Some (s', 2) \<and> dsu_inv s'
         \<and> components s' = Some (s'', 2))"
proof -
  note inv = example_dsu_inv
  note t = dsu_invariant_preserved [OF inv, of 3 4]
  from DSU_new_examples(2) dsu_inv_new
  have N: "\<exists>s0. DSU_new example_max_size 5 = Inr s0 \<and> dsu_inv s0" by blast
  have c: "components example_dsu
      = Some (\<lparr>parent = [0, 0, 0, 0, 4], rank = [2, 0, 1, 0, 0]\<rparr>, 2)"
    by (simp add: example_dsu_def components_def components_loop.simps find.simps)
  with t have D: "\<exists>s' s''. components example_dsu = Some (s', 2) \<and> dsu_inv s'
         \<and> components s' = Some (s'', 2)" by auto
  from N inv t D show ?thesis by blast
qed

text \<open>
  C9. With \<open>c\<close> the count \<open>components()\<close> returns beforehand: after \<open>unite(x, y)\<close> the
  count is \<open>c - 1\<close> if the call returned true and \<open>c\<close> if it returned false. This holds
  both when \<open>unite\<close> runs on the state \<open>components\<close> left and when it runs on the state
  as it was before.
\<close>

theorem unite_components:
  assumes "dsu_inv s"
  shows "\<exists>s0 c s1 b s2 c'. components s = Some (s0, c) \<and> unite s0 x y = Some (Inr (s1, b))
           \<and> components s1 = Some (s2, c') \<and> c' = (if b then c - 1 else c)
           \<and> (\<exists>t1 t2 d'. unite s x y = Some (Inr (t1, b)) \<and> components t1 = Some (t2, d')
                 \<and> d' = (if b then c - 1 else c))"
proof -
  from assms have f: "forest (parent s)" by (simp add: dsu_inv_def)
  from components_spec [OF f] obtain s0 where
    0: "components s = Some (s0, int (num_roots (parent s)))" "rank s0 = rank s"
      "compressed (parent s) (parent s0)" by blast
  from compressed_inv [OF assms 0(2,3)] have i0: "dsu_inv s0" .
  from unite_total [OF i0, of x y] obtain s1 b where
    1: "unite s0 x y = Some (Inr (s1, b))" "dsu_inv s1"
      "b \<longleftrightarrow> valid s0 x \<and> valid s0 y \<and> \<not> same_set (parent s0) x y"
      "int (num_roots (parent s1)) = (if b then int (num_roots (parent s0)) - 1
                                            else int (num_roots (parent s0)))" by blast
  from 1(2) have f1: "forest (parent s1)" by (simp add: dsu_inv_def)
  from components_spec [OF f1] obtain s2 where
    2: "components s1 = Some (s2, int (num_roots (parent s1)))" by blast
  from unite_total [OF assms, of x y] obtain t1 b' where
    3: "unite s x y = Some (Inr (t1, b'))" "dsu_inv t1"
      "b' \<longleftrightarrow> valid s x \<and> valid s y \<and> \<not> same_set (parent s) x y"
      "int (num_roots (parent t1)) = (if b' then int (num_roots (parent s)) - 1
                                            else int (num_roots (parent s)))" by blast
  from 3(2) have ft: "forest (parent t1)" by (simp add: dsu_inv_def)
  from components_spec [OF ft] obtain t2 where
    4: "components t1 = Some (t2, int (num_roots (parent t1)))" by blast
  have "valid s0 z \<longleftrightarrow> valid s z" for z using 0(3) by (simp add: valid_def compressed_def)
  with 1(3) 3(3) compressed_same_set [OF f 0(3)] have bb: "b' = b" by simp
  from 0 1 2 3 4 bb compressed_num_roots [OF 0(3)] show ?thesis by auto
qed

theorem unite_components_witness:
  "dsu_inv example_dsu
   \<and> (\<exists>s0 s1 s2. components example_dsu = Some (s0, 2)
         \<and> unite s0 3 4 = Some (Inr (s1, True)) \<and> components s1 = Some (s2, 1))
   \<and> (\<exists>s0 s1 s2. components example_dsu = Some (s0, 2)
         \<and> unite s0 3 1 = Some (Inr (s1, False)) \<and> components s1 = Some (s2, 2))"
proof -
  note inv = example_dsu_inv
  let ?s0 = "\<lparr>parent = [0, 0, 0, 0, 4], rank = [2, 0, 1, 0, 0]\<rparr>"
  have c: "components example_dsu = Some (?s0, 2)"
    by (simp add: example_dsu_def components_def components_loop.simps find.simps)
  have u: "unite ?s0 3 4 = Some (Inr (\<lparr>parent = [0, 0, 0, 0, 0], rank = [2, 0, 1, 0, 0]\<rparr>, True))"
    "unite ?s0 3 1 = Some (Inr (?s0, False))"
    by (simp_all add: unite_def find.simps)
  from unite_components [OF inv, of 3 4] c u(1)
  have A: "\<exists>s0 s1 s2. components example_dsu = Some (s0, 2)
         \<and> unite s0 3 4 = Some (Inr (s1, True)) \<and> components s1 = Some (s2, 1)" by auto
  from unite_components [OF inv, of 3 1] c u(2)
  have B: "\<exists>s0 s1 s2. components example_dsu = Some (s0, 2)
         \<and> unite s0 3 1 = Some (Inr (s1, False)) \<and> components s1 = Some (s2, 2)" by auto
  from inv A B show ?thesis by blast
qed

end
